theory Spec2Isabelle
  imports Main
begin

section \<open>Strings of the host language\<close>

text \<open>
  A string of the program is a list of code units. The model covers the code units
  \<open>0..255\<close>, one \<^typ>\<open>char\<close> each; the case mappings below are those of the host
  language on that range.
\<close>

definition toUpperChar :: "char \<Rightarrow> char" where
  "toUpperChar c =
     (let n = (of_char c :: nat)
      in if (97 \<le> n \<and> n \<le> 122) \<or> (224 \<le> n \<and> n \<le> 254 \<and> n \<noteq> 247)
         then char_of (n - 32) else c)"

definition toLowerChar :: "char \<Rightarrow> char" where
  "toLowerChar c =
     (let n = (of_char c :: nat)
      in if (65 \<le> n \<and> n \<le> 90) \<or> (192 \<le> n \<and> n \<le> 222 \<and> n \<noteq> 215)
         then char_of (n + 32) else c)"

definition toLowerCase :: "string \<Rightarrow> string" where
  "toLowerCase s = map toLowerChar s"

definition startsWith :: "string \<Rightarrow> string \<Rightarrow> bool" where
  "startsWith s p = (take (length p) s = p)"

definition endsWith :: "string \<Rightarrow> string \<Rightarrow> bool" where
  "endsWith s p = (length p \<le> length s \<and> drop (length s - length p) s = p)"

text \<open>\<open>s.slice(start, end)\<close> and \<open>s.slice(start)\<close>: a negative index counts from the end.\<close>

definition slice_index :: "nat \<Rightarrow> int \<Rightarrow> nat" where
  "slice_index len k = (if k < 0 then nat (max (int len + k) 0) else min (nat k) len)"

definition slice :: "'a list \<Rightarrow> int \<Rightarrow> int \<Rightarrow> 'a list" where
  "slice s start fin =
     (let a = slice_index (length s) start; b = slice_index (length s) fin
      in take (b - a) (drop a s))"

definition slice_from :: "'a list \<Rightarrow> int \<Rightarrow> 'a list" where
  "slice_from s start = drop (slice_index (length s) start) s"

text \<open>\<open>s.split("/")\<close>: the pieces between the separators, the empty string giving one
  empty piece.\<close>

fun split :: "char \<Rightarrow> string \<Rightarrow> string list" where
  "split sep [] = [[]]"
| "split sep (c # cs) =
     (if c = sep then [] # split sep cs
      else (case split sep cs of [] \<Rightarrow> [[c]] | s # ss \<Rightarrow> (c # s) # ss))"

text \<open>\<open>xs.join("/")\<close>\<close>

fun join :: "char \<Rightarrow> string list \<Rightarrow> string" where
  "join sep [] = []"
| "join sep [s] = s"
| "join sep (s # t # ss) = s @ sep # join sep (t # ss)"

section \<open>Regular expressions\<close>

text \<open>
  The regular expressions of the program, as syntax trees, with the backtracking
  semantics of the host language: a matcher returns every way to continue, best first,
  and the first one is the match. The constructs are the ones the program's expressions
  use; a repetition is always over a single-character atom, as in the program.
\<close>

datatype atom =
    Chr char                \<comment> \<open>a literal character, escaped or not\<close>
  | OneOf "char list"       \<comment> \<open>\<open>[abc]\<close>\<close>
  | NoneOf "char list"      \<comment> \<open>\<open>[^abc]\<close>\<close>

datatype regex =
    Eps
  | Atom atom
  | Star atom               \<comment> \<open>\<open>a*\<close>, greedy\<close>
  | Seq regex regex
  | Alt regex regex         \<comment> \<open>\<open>r|s\<close>, left first\<close>
  | Group nat regex         \<comment> \<open>the capturing group of that number\<close>
  | Look regex              \<comment> \<open>\<open>(?=r)\<close>\<close>
  | WordB                   \<comment> \<open>\<open>\b\<close>\<close>
  | Bol                     \<comment> \<open>\<open>^\<close>\<close>
  | Eol                     \<comment> \<open>\<open>$\<close>\<close>

definition Plus :: "atom \<Rightarrow> regex" where
  "Plus a = Seq (Atom a) (Star a)"

definition Opt :: "regex \<Rightarrow> regex" where
  "Opt r = Alt r Eps"

definition word_chars :: "char list" where
  "word_chars = ''ABCDEFGHIJKLMNOPQRSTUVWXYZabcdefghijklmnopqrstuvwxyz0123456789_''"

text \<open>\<open>\w\<close>, \<open>.\<close> (any character but a line terminator) and \<open>\/\<close>.\<close>

definition Word :: atom where
  "Word = OneOf word_chars"

definition Dot :: atom where
  "Dot = NoneOf [CHR 0x0A, CHR 0x0D]"

definition Slash :: atom where
  "Slash = Chr CHR ''/''"

text \<open>Under the flag \<open>i\<close> two characters are compared by their upper-case forms.\<close>

definition canonicalize :: "bool \<Rightarrow> char \<Rightarrow> char" where
  "canonicalize ignoreCase c = (if ignoreCase then toUpperChar c else c)"

fun atom_ok :: "bool \<Rightarrow> atom \<Rightarrow> char \<Rightarrow> bool" where
  "atom_ok i (Chr a) c = (canonicalize i a = canonicalize i c)"
| "atom_ok i (OneOf as) c = list_ex (\<lambda>a. canonicalize i a = canonicalize i c) as"
| "atom_ok i (NoneOf as) c = (\<not> list_ex (\<lambda>a. canonicalize i a = canonicalize i c) as)"

text \<open>
  A matcher state: the input before the current position (reversed), the input after
  it, and the captures so far.
\<close>

type_synonym captures = "nat \<Rightarrow> string option"
type_synonym mstate = "string \<times> string \<times> captures"

fun star_run :: "bool \<Rightarrow> atom \<Rightarrow> string \<Rightarrow> string \<Rightarrow> (string \<times> string) list" where
  "star_run i a b [] = [(b, [])]"
| "star_run i a b (c # cs) =
     (if atom_ok i a c then star_run i a (c # b) cs @ [(b, c # cs)] else [(b, c # cs)])"

definition is_word_at :: "string \<Rightarrow> bool" where
  "is_word_at s = (case s of [] \<Rightarrow> False | c # _ \<Rightarrow> c \<in> set word_chars)"

fun rx :: "bool \<Rightarrow> regex \<Rightarrow> mstate \<Rightarrow> mstate list" where
  "rx i Eps s = [s]"
| "rx i (Atom a) (b, cs, g) =
     (case cs of [] \<Rightarrow> [] | c # cs' \<Rightarrow> if atom_ok i a c then [(c # b, cs', g)] else [])"
| "rx i (Star a) (b, cs, g) = map (\<lambda>(b', cs'). (b', cs', g)) (star_run i a b cs)"
| "rx i (Seq r1 r2) s = concat (map (rx i r2) (rx i r1 s))"
| "rx i (Alt r1 r2) s = rx i r1 s @ rx i r2 s"
| "rx i (Group n r) (b, cs, g) =
     map (\<lambda>(b', cs', g'). (b', cs', g'(n \<mapsto> rev (take (length b' - length b) b'))))
       (rx i r (b, cs, g))"
| "rx i (Look r) (b, cs, g) =
     (case rx i r (b, cs, g) of [] \<Rightarrow> [] | (_, _, g') # _ \<Rightarrow> [(b, cs, g')])"
| "rx i WordB (b, cs, g) = (if is_word_at b \<noteq> is_word_at cs then [(b, cs, g)] else [])"
| "rx i Bol (b, cs, g) = (if b = [] then [(b, cs, g)] else [])"
| "rx i Eol (b, cs, g) = (if cs = [] then [(b, cs, g)] else [])"

text \<open>
  The match of an expression at one position: the matched text and the captures.
\<close>

record rmatch =
  matched :: string
  groups :: captures

definition match_at :: "bool \<Rightarrow> regex \<Rightarrow> string \<Rightarrow> string \<Rightarrow> rmatch option" where
  "match_at i re b cs =
     (case rx i re (b, cs, Map.empty) of
        [] \<Rightarrow> None
      | (b', cs', g) # _ \<Rightarrow> Some \<lparr>matched = rev (take (length b' - length b) b'), groups = g\<rparr>)"

text \<open>
  \<open>re.exec(s)\<close> without the flag \<open>g\<close>: the first position, from the left, at which the
  expression matches. The result is the text before the match and the match.
\<close>

fun exec_from :: "bool \<Rightarrow> regex \<Rightarrow> string \<Rightarrow> string \<Rightarrow> (string \<times> rmatch) option" where
  "exec_from i re b [] =
     (case match_at i re b [] of None \<Rightarrow> None | Some m \<Rightarrow> Some (rev b, m))"
| "exec_from i re b (c # cs) =
     (case match_at i re b (c # cs) of
        None \<Rightarrow> exec_from i re (c # b) cs
      | Some m \<Rightarrow> Some (rev b, m))"

definition exec :: "bool \<Rightarrow> regex \<Rightarrow> string \<Rightarrow> (string \<times> rmatch) option" where
  "exec i re s = exec_from i re [] s"

definition test :: "bool \<Rightarrow> regex \<Rightarrow> string \<Rightarrow> bool" where
  "test i re s = (exec i re s \<noteq> None)"

text \<open>
  \<open>s.replace(re, f)\<close> for an expression without the flag \<open>g\<close>: the first match is
  replaced by what \<open>f\<close> makes of it.
\<close>

definition replace :: "bool \<Rightarrow> regex \<Rightarrow> (rmatch \<Rightarrow> string) \<Rightarrow> string \<Rightarrow> string" where
  "replace i re f s =
     (case exec i re s of
        None \<Rightarrow> s
      | Some (pre, m) \<Rightarrow> pre @ f m @ drop (length pre + length (matched m)) s)"

text \<open>
  The matches of an expression with the flag \<open>g\<close>, and the text between them, from left
  to right: after a match the search goes on behind it (one character further after an
  empty match). \<open>skip\<close> counts the characters of the last match still to pass.
\<close>

fun pieces :: "bool \<Rightarrow> regex \<Rightarrow> string \<Rightarrow> string \<Rightarrow> nat \<Rightarrow> (char + rmatch) list" where
  "pieces i re b [] skip =
     (if skip = 0 then (case match_at i re b [] of None \<Rightarrow> [] | Some m \<Rightarrow> [Inr m]) else [])"
| "pieces i re b (c # cs) skip =
     (if skip > 0 then pieces i re (c # b) cs (skip - 1)
      else (case match_at i re b (c # cs) of
              None \<Rightarrow> Inl c # pieces i re (c # b) cs 0
            | Some m \<Rightarrow>
                (if matched m = [] then Inr m # Inl c # pieces i re (c # b) cs 0
                 else Inr m # pieces i re (c # b) cs (length (matched m) - 1))))"

definition replace_all :: "bool \<Rightarrow> regex \<Rightarrow> (rmatch \<Rightarrow> string) \<Rightarrow> string \<Rightarrow> string" where
  "replace_all i re f s =
     concat (map (\<lambda>p. case p of Inl c \<Rightarrow> [c] | Inr m \<Rightarrow> f m) (pieces i re [] s 0))"

definition group :: "rmatch \<Rightarrow> nat \<Rightarrow> string" where
  "group m n = (case groups m n of None \<Rightarrow> [] | Some s \<Rightarrow> s)"

section \<open>Path primitives\<close>

text \<open>\<open>paths.join("/").replace(/\/\/+/g, "/")\<close>\<close>

definition joinPaths :: "string list \<Rightarrow> string" where
  "joinPaths paths =
     replace_all False (Seq (Atom Slash) (Plus Slash)) (\<lambda>_. ''/'') (join CHR ''/'' paths)"

text \<open>\<open>pathname.replace(/\/+$/, "").replace(/^\/*/, "/")\<close>\<close>

definition normalizePathname :: "string \<Rightarrow> string" where
  "normalizePathname pathname =
     replace False (Seq Bol (Star Slash)) (\<lambda>_. ''/'')
       (replace False (Seq (Plus Slash) Eol) (\<lambda>_. '''') pathname)"

section \<open>Scores\<close>

text \<open>\<open>paramRe = /^:\w+$/\<close>\<close>

definition paramRe :: regex where
  "paramRe = Seq Bol (Seq (Atom (Chr CHR '':'')) (Seq (Plus Word) Eol))"

definition dynamicSegmentValue :: int where "dynamicSegmentValue = 3"
definition indexRouteValue :: int where "indexRouteValue = 2"
definition emptySegmentValue :: int where "emptySegmentValue = 1"
definition staticSegmentValue :: int where "staticSegmentValue = 10"
definition splatPenalty :: int where "splatPenalty = - 2"

definition isSplat :: "string \<Rightarrow> bool" where
  "isSplat s = (s = ''*'')"

text \<open>The flag \<open>index\<close> of a route is optional; an absent flag counts as false.\<close>

definition truthy :: "bool option \<Rightarrow> bool" where
  "truthy b = (b = Some True)"

definition computeScore :: "string \<Rightarrow> bool option \<Rightarrow> int" where
  "computeScore path index =
     (let segments = split CHR ''/'' path;
          initialScore = int (length segments);
          initialScore = (if list_ex isSplat segments then initialScore + splatPenalty
                          else initialScore);
          initialScore = (if truthy index then initialScore + indexRouteValue
                          else initialScore)
      in foldl (\<lambda>score segment.
                  score + (if test False paramRe segment then dynamicSegmentValue
                           else if segment = '''' then emptySegmentValue
                           else staticSegmentValue))
           initialScore (filter (\<lambda>s. \<not> isSplat s) segments))"

section \<open>Errors\<close>

text \<open>
  \<open>invariant(value, message)\<close> throws when the value is false, null or undefined. Each
  of its three uses is one error of the model, carrying what the message names. The
  fourth error is the one of the host when \<open>params["*"].replace\<close> is called on a value
  that is not a string.
\<close>

datatype error =
    AbsoluteChildPath string string   \<comment> \<open>the child's path, the parents' path\<close>
  | IndexRouteWithChildren string     \<comment> \<open>the route's full path\<close>
  | MissingParam string               \<comment> \<open>the parameter's name\<close>
  | NotAString string                 \<comment> \<open>the parameter whose value has no \<open>replace\<close>\<close>

section \<open>Generating a path\<close>

text \<open>
  The parameters that \<open>matchPath\<close> builds are the own properties of a fresh object: a
  map from names to strings.
\<close>

type_synonym Params = "string \<Rightarrow> string option"



text \<open>\<open>/:(\w+)/g\<close>\<close>

definition paramToken :: regex where
  "paramToken = Seq (Atom (Chr CHR '':'')) (Group 1 (Plus Word))"




section \<open>Resolving a relative path\<close>

text \<open>
  A \<open>Partial<Path>\<close> object (a \<open>To\<close> object, a location): each field may be absent.
  \<open>parsePath\<close>, which reads such an object from a string, belongs to the history module
  and is a parameter of the functions that call it.
\<close>

record PartialPath =
  opt_pathname :: "string option"
  opt_search :: "string option"
  opt_hash :: "string option"

record Path =
  path_pathname :: string
  path_search :: string
  path_hash :: string

datatype To = ToString string | ToPath PartialPath

definition normalizeSearch :: "string \<Rightarrow> string" where
  "normalizeSearch s =
     (if s = [] \<or> s = ''?'' then [] else if startsWith s ''?'' then s else ''?'' @ s)"

definition normalizeHash :: "string \<Rightarrow> string" where
  "normalizeHash h =
     (if h = [] \<or> h = ''#'' then [] else if startsWith h ''#'' then h else ''#'' @ h)"

text \<open>The loop of \<open>resolvePathname\<close> over the segments of the relative path.\<close>

fun resolve_segments :: "string list \<Rightarrow> string list \<Rightarrow> string list" where
  "resolve_segments segments [] = segments"
| "resolve_segments segments (segment # rest) =
     (if segment = ''..''
      then resolve_segments (if length segments > 1 then butlast segments else segments) rest
      else if segment \<noteq> ''.'' then resolve_segments (segments @ [segment]) rest
      else resolve_segments segments rest)"

definition resolvePathname :: "string \<Rightarrow> string \<Rightarrow> string" where
  "resolvePathname relativePath fromPathname =
     (let segments = split CHR ''/'' (replace False (Seq (Plus Slash) Eol) (\<lambda>_. []) fromPathname);
          relativeSegments = split CHR ''/'' relativePath;
          segments = resolve_segments segments relativeSegments
      in if length segments > 1 then join CHR ''/'' segments else ''/'')"

definition to_object :: "(string \<Rightarrow> PartialPath) \<Rightarrow> To \<Rightarrow> PartialPath" where
  "to_object parsePath to = (case to of ToString s \<Rightarrow> parsePath s | ToPath p \<Rightarrow> p)"

definition or_default :: "'a option \<Rightarrow> 'a \<Rightarrow> 'a" where
  "or_default v d = (case v of None \<Rightarrow> d | Some x \<Rightarrow> x)"

definition resolvePath :: "(string \<Rightarrow> PartialPath) \<Rightarrow> To \<Rightarrow> string \<Rightarrow> Path" where
  "resolvePath parsePath to fromPathname =
     (let t = to_object parsePath to;
          toPathname = opt_pathname t;
          pathname =
            (case toPathname of
               None \<Rightarrow> fromPathname
             | Some p \<Rightarrow>
                 if p = [] then fromPathname
                 else if startsWith p ''/'' then p
                 else resolvePathname p fromPathname)
      in \<lparr>path_pathname = pathname,
          path_search = normalizeSearch (or_default (opt_search t) []),
          path_hash = normalizeHash (or_default (opt_hash t) [])\<rparr>)"

text \<open>
  \<open>while (toSegments[0] === "..") { toSegments.shift(); routePathnameIndex -= 1; }\<close>
\<close>

fun shift_parents :: "string list \<Rightarrow> int \<Rightarrow> string list \<times> int" where
  "shift_parents [] routePathnameIndex = ([], routePathnameIndex)"
| "shift_parents (s # toSegments) routePathnameIndex =
     (if s = ''..'' then shift_parents toSegments (routePathnameIndex - 1)
      else (s # toSegments, routePathnameIndex))"

definition resolveTo ::
  "(string \<Rightarrow> PartialPath) \<Rightarrow> To \<Rightarrow> string list \<Rightarrow> string \<Rightarrow> Path" where
  "resolveTo parsePath toArg routePathnames locationPathname =
     (let to = to_object parsePath toArg;
          toPathname = (if toArg = ToString [] \<or> opt_pathname to = Some [] then Some ''/''
                        else opt_pathname to);
          (to, from) =
            (case toPathname of
               None \<Rightarrow> (to, locationPathname)
             | Some tp \<Rightarrow>
                 let routePathnameIndex = int (length routePathnames) - 1;
                     (to, routePathnameIndex) =
                       (if startsWith tp ''..''
                        then let (toSegments, k) =
                                   shift_parents (split CHR ''/'' tp) routePathnameIndex
                             in (to\<lparr>opt_pathname := Some (join CHR ''/'' toSegments)\<rparr>, k)
                        else (to, routePathnameIndex))
                 in (to, if routePathnameIndex \<ge> 0 then routePathnames ! nat routePathnameIndex
                         else ''/''));
          path = resolvePath parsePath (ToPath to) from
      in if (case toPathname of
               None \<Rightarrow> False
             | Some tp \<Rightarrow> tp \<noteq> [] \<and> tp \<noteq> ''/'' \<and> endsWith tp ''/''
                          \<and> \<not> endsWith (path_pathname path) ''/'')
         then path\<lparr>path_pathname := path_pathname path @ ''/''\<rparr>
         else path)"

section \<open>Matching one pattern\<close>

record PathPattern =
  pattern_path :: string
  pattern_caseSensitive :: "bool option"
  pattern_end :: "bool option"

record PathMatch =
  pm_params :: Params
  pm_pathname :: string
  pm_pathnameBase :: string
  pm_pattern :: PathPattern

text \<open>
  \<open>compilePath\<close> writes a source text and hands it to \<open>new RegExp\<close>; the model builds the
  syntax tree that this text denotes. The text is the path with its special characters
  escaped and each \<open>:name\<close> replaced by the group \<open>([^\/]+)\<close>. An escaped character
  denotes the character itself, so it is the atom of that character; the backslashes of
  the escape stand before characters that are neither \<open>:\<close> nor word characters, so the
  \<open>:name\<close> tokens of the escaped text are those of the text before the escape.
  The groups are numbered from the left, as the host numbers them. The warning about a
  \<open>*\<close> that does not follow a \<open>/\<close> only prints and is left out.
\<close>

fun source_parts :: "(char + rmatch) list \<Rightarrow> nat \<Rightarrow> regex list" where
  "source_parts [] n = []"
| "source_parts (Inl c # ps) n = Atom (Chr c) # source_parts ps n"
| "source_parts (Inr m # ps) n = Group (Suc n) (Plus (NoneOf ''/'')) # source_parts ps (Suc n)"

fun piece_names :: "(char + rmatch) list \<Rightarrow> string list" where
  "piece_names [] = []"
| "piece_names (Inl c # ps) = piece_names ps"
| "piece_names (Inr m # ps) = group m 1 # piece_names ps"

definition seqs :: "regex list \<Rightarrow> regex" where
  "seqs rs = foldr Seq rs Eps"

text \<open>\<open>[0-9A-F]\<close> and \<open>(?:(?=[.~-]|%[0-9A-F]{2})|\b|\/|$)\<close>\<close>

definition Hex :: atom where
  "Hex = OneOf ''0123456789ABCDEF''"

definition boundary :: regex where
  "boundary =
     Alt (Look (Alt (Atom (OneOf ''.~-''))
                    (Seq (Atom (Chr CHR ''%'')) (Seq (Atom Hex) (Atom Hex)))))
       (Alt WordB (Alt (Atom Slash) Eol))"

text \<open>The result: the flag \<open>i\<close>, the expression and the names of its groups.\<close>

definition compilePath :: "string \<Rightarrow> bool \<Rightarrow> bool \<Rightarrow> bool \<times> regex \<times> string list" where
  "compilePath path caseSensitive end =
     (let ps = pieces False paramToken []
                 (replace False (Seq Bol (Star Slash)) (\<lambda>_. ''/'')
                    (replace False (Seq (Star Slash) (Seq (Opt (Atom (Chr CHR ''*''))) Eol))
                       (\<lambda>_. []) path))
                 0;
          paramNames = piece_names ps;
          regexpSource = Seq Bol (seqs (source_parts ps 0));
          n = length paramNames
      in if endsWith path ''*''
         then (\<not> caseSensitive,
               Seq regexpSource
                 (if path = ''*'' \<or> path = ''/*''
                  then Seq (Group (Suc n) (Star Dot)) Eol
                  else Seq (Alt (Seq (Atom Slash) (Group (Suc n) (Plus Dot))) (Star Slash)) Eol),
               paramNames @ [''*''])
         else (\<not> caseSensitive,
               Seq regexpSource (if end then Seq (Star Slash) Eol else boundary),
               paramNames))"

text \<open>
  \<open>decodeURIComponent\<close> belongs to the host; it is a parameter, \<open>None\<close> being its throw.
\<close>

definition safelyDecodeURIComponent ::
  "(string \<Rightarrow> string option) \<Rightarrow> string \<Rightarrow> string \<Rightarrow> string" where
  "safelyDecodeURIComponent decodeURIComponent v paramName =
     (case decodeURIComponent v of Some d \<Rightarrow> d | None \<Rightarrow> v)"

text \<open>\<open>s.replace(/(.)\/+$/, "$1")\<close>\<close>

definition dropTrailingSlashes :: "string \<Rightarrow> string" where
  "dropTrailingSlashes s =
     replace False (Seq (Group 1 (Atom Dot)) (Seq (Plus Slash) Eol)) (\<lambda>m. group m 1) s"

datatype PatternArg = PatternString string | PatternObject PathPattern

text \<open>
  The body of the \<open>reduce\<close> over the names: the memo and the pathname base. The memo
  is an object literal, and the assignment of a string to its \<open>__proto__\<close> leaves such
  an object as it is: a parameter of that name is not stored.
\<close>

definition matchPath_step ::
  "(string \<Rightarrow> string option) \<Rightarrow> string \<Rightarrow> rmatch \<Rightarrow> Params \<times> string \<Rightarrow> string \<times> nat
   \<Rightarrow> Params \<times> string" where
  "matchPath_step decodeURIComponent matchedPathname m acc pn =
     (let (memo, pathnameBase) = acc;
          (paramName, index) = pn;
          pathnameBase =
            (if paramName = ''*''
             then let splatValue = group m (Suc index)
                  in dropTrailingSlashes
                       (slice matchedPathname 0
                          (int (length matchedPathname) - int (length splatValue)))
             else pathnameBase)
      in (if paramName = ''__proto__'' then memo
          else memo(paramName \<mapsto>
                 safelyDecodeURIComponent decodeURIComponent (group m (Suc index)) paramName),
          pathnameBase))"

definition matchPath ::
  "(string \<Rightarrow> string option) \<Rightarrow> PatternArg \<Rightarrow> string \<Rightarrow> PathMatch option" where
  "matchPath decodeURIComponent pattern pathname =
     (let pattern =
            (case pattern of
               PatternString p \<Rightarrow>
                 \<lparr>pattern_path = p, pattern_caseSensitive = Some False, pattern_end = Some True\<rparr>
             | PatternObject p \<Rightarrow> p);
          (ignoreCase, matcher, paramNames) =
            compilePath (pattern_path pattern)
              (or_default (pattern_caseSensitive pattern) False)
              (or_default (pattern_end pattern) True)
      in case exec ignoreCase matcher pathname of
           None \<Rightarrow> None
         | Some (_, m) \<Rightarrow>
             let matchedPathname = matched m;
                 pathnameBase = dropTrailingSlashes matchedPathname;
                 (params, pathnameBase) =
                   foldl (matchPath_step decodeURIComponent matchedPathname m)
                     (Map.empty, pathnameBase)
                     (zip paramNames [0..<length paramNames])
             in Some \<lparr>pm_params = params, pm_pathname = matchedPathname,
                       pm_pathnameBase = pathnameBase, pm_pattern = pattern\<rparr>)"

definition stripBasename :: "string \<Rightarrow> string \<Rightarrow> string option" where
  "stripBasename pathname basename =
     (if basename = ''/'' then Some pathname
      else if \<not> startsWith (toLowerCase pathname) (toLowerCase basename) then None
      else let nextChar = take 1 (drop (length basename) pathname)
           in if nextChar \<noteq> [] \<and> nextChar \<noteq> ''/'' then None
              else let rest = slice_from pathname (int (length basename))
                   in Some (if rest = [] then ''/'' else rest))"

section \<open>Routes and branches\<close>

text \<open>
  A route object: the optional fields the matching reads, and a payload for the rest
  (element, id, loader, action, handle), which the matching never looks at.
\<close>

datatype 'a RouteObject =
  RouteObject
    (route_caseSensitive: "bool option")
    (route_children: "'a RouteObject list option")
    (route_index: "bool option")
    (route_path: "string option")
    (route_payload: 'a)

record 'a RouteMeta =
  meta_relativePath :: string
  meta_caseSensitive :: bool
  meta_childrenIndex :: nat
  meta_route :: "'a RouteObject"

record 'a RouteBranch =
  branch_path :: string
  branch_score :: int
  branch_routesMeta :: "'a RouteMeta list"

text \<open>
  \<open>flattenRoutes\<close> pushes onto the one array \<open>branches\<close> that all its calls share; the
  model passes the array in and returns it. \<open>flattenRoute\<close> is the callback of the
  \<open>forEach\<close>, \<open>index\<close> the position of the route among its siblings.
\<close>

function flattenRoutes ::
    "'a RouteObject list \<Rightarrow> nat \<Rightarrow> 'a RouteBranch list \<Rightarrow> 'a RouteMeta list \<Rightarrow> string
     \<Rightarrow> error + 'a RouteBranch list"
  and flattenRoute ::
    "'a RouteObject \<Rightarrow> nat \<Rightarrow> 'a RouteBranch list \<Rightarrow> 'a RouteMeta list \<Rightarrow> string
     \<Rightarrow> error + 'a RouteBranch list"
where
  "flattenRoutes [] index branches parentsMeta parentPath = Inr branches"
| "flattenRoutes (r # rs) index branches parentsMeta parentPath =
     (case flattenRoute r index branches parentsMeta parentPath of
        Inl e \<Rightarrow> Inl e
      | Inr branches \<Rightarrow> flattenRoutes rs (Suc index) branches parentsMeta parentPath)"
| "flattenRoute r index branches parentsMeta parentPath =
     (let relPath = or_default (route_path r) []
      in if startsWith relPath ''/'' \<and> \<not> startsWith relPath parentPath
         then Inl (AbsoluteChildPath relPath parentPath)
         else
           let relPath = (if startsWith relPath ''/''
                          then slice_from relPath (int (length parentPath)) else relPath);
               meta = \<lparr>meta_relativePath = relPath,
                       meta_caseSensitive = (route_caseSensitive r = Some True),
                       meta_childrenIndex = index, meta_route = r\<rparr>;
               path = joinPaths [parentPath, relPath];
               routesMeta = parentsMeta @ [meta];
               cs = or_default (route_children r) []
           in if cs \<noteq> [] \<and> route_index r = Some True
              then Inl (IndexRouteWithChildren path)
              else
                case (if cs \<noteq> [] then flattenRoutes cs 0 branches routesMeta path
                      else Inr branches) of
                  Inl e \<Rightarrow> Inl e
                | Inr branches \<Rightarrow>
                    if (route_path r = None \<and> \<not> truthy (route_index r))
                    then Inr branches
                    else Inr (branches @
                                [\<lparr>branch_path = path,
                                  branch_score = computeScore path (route_index r),
                                  branch_routesMeta = routesMeta\<rparr>]))"
  by pat_completeness auto
termination
proof (relation "measure (\<lambda>x. case x of
          Inl (rs, _) \<Rightarrow> size_list size rs
        | Inr (r, _) \<Rightarrow> size r)", goal_cases)
  case 1
  show ?case by simp
next
  case (2 r rs index branches parentsMeta parentPath)
  show ?case by simp
next
  case (3 r rs index branches parentsMeta parentPath bs)
  show ?case by simp
next
  case (4 r index branches parentsMeta parentPath relPath relPath' meta path routesMeta cs)
  then show ?case by (cases r) (auto simp: or_default_def split: option.splits)
qed

text \<open>
  \<open>a.slice(0, -1).every((n, i) => n === b[i])\<close>; the difference of the last indices of
  two empty arrays is not a number, which a sort reads as zero.
\<close>

definition compareIndexes :: "nat list \<Rightarrow> nat list \<Rightarrow> int" where
  "compareIndexes a b =
     (let siblings =
            (length a = length b \<and>
             list_all (\<lambda>(n, i). i < length b \<and> n = b ! i)
               (zip (slice a 0 (- 1)) [0..<length a]))
      in if siblings
         then (if a = [] \<or> b = [] then 0 else int (last a) - int (last b))
         else 0)"

definition compareBranches :: "'a RouteBranch \<Rightarrow> 'a RouteBranch \<Rightarrow> int" where
  "compareBranches a b =
     (if branch_score a \<noteq> branch_score b then branch_score b - branch_score a
      else compareIndexes (map meta_childrenIndex (branch_routesMeta a))
             (map meta_childrenIndex (branch_routesMeta b)))"

text \<open>
  \<open>Array.prototype.sort\<close> belongs to the host, which specifies it as stable and leaves
  the order open where the comparator is not a consistent ordering. The model is the
  stable insertion sort: each element in turn moves left for as long as the comparator
  puts it strictly before its left neighbour. \<open>insert_sorted\<close> works on the reversed
  prefix. \<open>rankRouteBranches\<close> sorts the lists of \<open>flattenRoutes\<close> only; in those the
  comparator never puts a branch before an earlier one of the same score, so that a
  stable sort, this one or the one of a host, orders them by score alone and keeps the
  branches of one score as they stand.
\<close>

fun insert_sorted :: "('a \<Rightarrow> 'a \<Rightarrow> int) \<Rightarrow> 'a \<Rightarrow> 'a list \<Rightarrow> 'a list" where
  "insert_sorted cmp x [] = [x]"
| "insert_sorted cmp x (y # ys) =
     (if cmp x y < 0 then y # insert_sorted cmp x ys else x # y # ys)"

definition sort_by :: "('a \<Rightarrow> 'a \<Rightarrow> int) \<Rightarrow> 'a list \<Rightarrow> 'a list" where
  "sort_by cmp xs = rev (foldl (\<lambda>acc x. insert_sorted cmp x acc) [] xs)"

definition rankRouteBranches :: "'a RouteBranch list \<Rightarrow> 'a RouteBranch list" where
  "rankRouteBranches branches = sort_by compareBranches branches"

section \<open>Matching a branch\<close>

text \<open>
  \<open>matchRouteBranch\<close> creates one object \<open>matchedParams\<close>, extends it with
  \<open>Object.assign\<close> at every segment, and stores a reference to it in every match it
  pushes. The objects live in a heap, a list addressed by position; a match holds the
  address of its parameters.
\<close>

type_synonym heap = "Params list"

definition alloc :: "heap \<Rightarrow> Params \<Rightarrow> heap \<times> nat" where
  "alloc h v = (h @ [v], length h)"

definition objectAssign :: "heap \<Rightarrow> nat \<Rightarrow> Params \<Rightarrow> heap" where
  "objectAssign h target source = h[target := (h ! target) ++ source]"

record 'a RouteMatch =
  rm_params :: nat
  rm_pathname :: string
  rm_pathnameBase :: string
  rm_route :: "'a RouteObject"

text \<open>The loop over \<open>routesMeta\<close>: \<open>metas\<close> are the segments from \<open>i\<close> on.\<close>

fun matchRouteBranch_loop ::
  "(string \<Rightarrow> string option) \<Rightarrow> string \<Rightarrow> 'a RouteMeta list \<Rightarrow> nat \<Rightarrow> string
   \<Rightarrow> 'a RouteMatch list \<Rightarrow> heap \<Rightarrow> heap \<times> 'a RouteMatch list option" where
  "matchRouteBranch_loop decodeURIComponent pathname [] matchedParams matchedPathname matches h =
     (h, Some matches)"
| "matchRouteBranch_loop decodeURIComponent pathname (meta # metas) matchedParams
     matchedPathname matches h =
     (let end = (metas = []);
          remainingPathname =
            (if matchedPathname = ''/'' then pathname
             else let rest = slice_from pathname (int (length matchedPathname))
                  in if rest = [] then ''/'' else rest)
      in case matchPath decodeURIComponent
                (PatternObject \<lparr>pattern_path = meta_relativePath meta,
                                pattern_caseSensitive = Some (meta_caseSensitive meta),
                                pattern_end = Some end\<rparr>)
                remainingPathname of
           None \<Rightarrow> (h, None)
         | Some match \<Rightarrow>
             let h = objectAssign h matchedParams (pm_params match);
                 matches = matches @
                   [\<lparr>rm_params = matchedParams,
                     rm_pathname = joinPaths [matchedPathname, pm_pathname match],
                     rm_pathnameBase =
                       normalizePathname (joinPaths [matchedPathname, pm_pathnameBase match]),
                     rm_route = meta_route meta\<rparr>];
                 matchedPathname =
                   (if pm_pathnameBase match \<noteq> ''/''
                    then joinPaths [matchedPathname, pm_pathnameBase match]
                    else matchedPathname)
             in matchRouteBranch_loop decodeURIComponent pathname metas matchedParams
                  matchedPathname matches h)"

definition matchRouteBranch ::
  "(string \<Rightarrow> string option) \<Rightarrow> heap \<Rightarrow> 'a RouteBranch \<Rightarrow> string
   \<Rightarrow> heap \<times> 'a RouteMatch list option" where
  "matchRouteBranch decodeURIComponent h branch pathname =
     (let (h, matchedParams) = alloc h Map.empty
      in matchRouteBranch_loop decodeURIComponent pathname (branch_routesMeta branch)
           matchedParams ''/'' [] h)"

section \<open>Matching a route tree\<close>

text \<open>\<open>for (let i = 0; matches == null && i < branches.length; ++i)\<close>\<close>

fun matchRoutes_loop ::
  "(string \<Rightarrow> string option) \<Rightarrow> heap \<Rightarrow> 'a RouteBranch list \<Rightarrow> string
   \<Rightarrow> heap \<times> 'a RouteMatch list option" where
  "matchRoutes_loop decodeURIComponent h [] pathname = (h, None)"
| "matchRoutes_loop decodeURIComponent h (branch # branches) pathname =
     (case matchRouteBranch decodeURIComponent h branch pathname of
        (h, None) \<Rightarrow> matchRoutes_loop decodeURIComponent h branches pathname
      | (h, Some matches) \<Rightarrow> (h, Some matches))"

text \<open>
  The location is a string or an object, like a \<open>To\<close> value. The result is an error
  where \<open>flattenRoutes\<close> throws, and else the heap and the matches or null.
\<close>

text \<open>\<open>location.pathname || "/"\<close>, the location read from a string where it is one.\<close>

definition location_pathname :: "(string \<Rightarrow> PartialPath) \<Rightarrow> To \<Rightarrow> string" where
  "location_pathname parsePath locationArg =
     (let location = to_object parsePath locationArg
      in case opt_pathname location of
           None \<Rightarrow> ''/''
         | Some p \<Rightarrow> if p = [] then ''/'' else p)"

definition matchRoutes ::
  "(string \<Rightarrow> string option) \<Rightarrow> (string \<Rightarrow> PartialPath) \<Rightarrow> heap \<Rightarrow> 'a RouteObject list \<Rightarrow> To
   \<Rightarrow> string \<Rightarrow> error + heap \<times> 'a RouteMatch list option" where
  "matchRoutes decodeURIComponent parsePath h routes locationArg basename =
     (case stripBasename (location_pathname parsePath locationArg) basename of
           None \<Rightarrow> Inr (h, None)
         | Some pathname \<Rightarrow>
             (case flattenRoutes routes 0 [] [] [] of
                Inl e \<Rightarrow> Inl e
              | Inr branches \<Rightarrow>
                  Inr (matchRoutes_loop decodeURIComponent h (rankRouteBranches branches)
                         pathname)))"

section \<open>Notions of the specification\<close>

text \<open>
  A dynamic segment in the words of the specification: a colon followed by one or more
  word characters, and nothing else.
\<close>

definition is_param :: "string \<Rightarrow> bool" where
  "is_param s =
     (case s of
        [] \<Rightarrow> False
      | c # n \<Rightarrow> c = CHR '':'' \<and> n \<noteq> [] \<and> list_all (\<lambda>x. x \<in> set word_chars) n)"

definition is_word :: "char \<Rightarrow> bool" where
  "is_word c = (c \<in> set word_chars)"

text \<open>
  The tokens of a path: its \<open>:name\<close> tokens, a colon with the longest run of word
  characters behind it, and the characters between them.
\<close>

function tokens :: "string \<Rightarrow> (char + string) list" where
  "tokens [] = []"
| "tokens (c # cs) =
     (if c = CHR '':'' \<and> takeWhile is_word cs \<noteq> []
      then Inr (takeWhile is_word cs) # tokens (dropWhile is_word cs)
      else Inl c # tokens cs)"
  by pat_completeness auto
termination
  by (relation "measure length") (auto simp: length_dropWhile_le less_Suc_eq_le)





section \<open>Notions for the proofs\<close>

text \<open>
  The leftmost split of a string whose second part satisfies a predicate: where a search
  stops when a match is a whole remainder of the input.
\<close>

fun first_suffix :: "(string \<Rightarrow> bool) \<Rightarrow> string \<Rightarrow> (string \<times> string) option" where
  "first_suffix P [] = (if P [] then Some ([], []) else None)"
| "first_suffix P (c # cs) =
     (if P (c # cs) then Some ([], c # cs)
      else map_option (\<lambda>(p, u). (c # p, u)) (first_suffix P cs))"

abbreviation sl :: "char \<Rightarrow> bool" where "sl \<equiv> (\<lambda>c. c = CHR ''/'')"

text \<open>The match of \<open>/:(\w+)/\<close> on a token with that name.\<close>

definition token_match :: "string \<Rightarrow> rmatch" where
  "token_match name = \<lparr>matched = CHR '':'' # name, groups = [1 \<mapsto> name]\<rparr>"

text \<open>
  An ill-formed route, in the words of the specification: in the tree of the route there
  is an index route with children, or a route whose path starts with \<open>/\<close> and does not
  start with the accumulated path of its parents. \<open>accumulated_path\<close> is the path of a
  route under the path of its parents.
\<close>

definition accumulated_path :: "string \<Rightarrow> 'a RouteObject \<Rightarrow> string" where
  "accumulated_path parentPath r =
     (let rel = or_default (route_path r) []
      in joinPaths [parentPath,
                    if startsWith rel ''/'' then drop (length parentPath) rel else rel])"

function ill_formed :: "string \<Rightarrow> 'a RouteObject \<Rightarrow> bool" where
  "ill_formed parentPath r =
     (let rel = or_default (route_path r) [];
          cs = or_default (route_children r) []
      in (startsWith rel ''/'' \<and> \<not> startsWith rel parentPath)
         \<or> (cs \<noteq> [] \<and> route_index r = Some True)
         \<or> list_ex (ill_formed (accumulated_path parentPath r)) cs)"
  by pat_completeness auto
termination
proof (relation "measure (\<lambda>(p, r). size r)", goal_cases)
  case 1
  show ?case by simp
next
  case (2 parentPath r rel cs c)
  then have "c \<in> set (or_default (route_children r) [])"
    by simp
  then obtain ds where ds: "route_children r = Some ds" "c \<in> set ds"
    by (cases "route_children r") (auto simp: or_default_def)
  have "size c \<le> size_list size ds"
    by (rule size_list_estimation'[OF ds(2)]) simp
  then show ?case
    using ds(1) by (cases r) simp
qed

text \<open>
  The matching of a branch without the heap: the result of \<open>matchPath\<close> at every segment
  of the branch, each with the pathname matched before it, or nothing when a segment does
  not match. A segment is matched as a pattern, to the end of the pathname when it is the
  last one, against what remains of the pathname behind the part matched so far, and that
  part advances by the pathname base of the match. \<open>route_match\<close> is the match pushed for
  a segment, its parameters at an address of the heap.
\<close>

definition remainingPathname :: "string \<Rightarrow> string \<Rightarrow> string" where
  "remainingPathname pathname matchedPathname =
     (if matchedPathname = ''/'' then pathname
      else if drop (length matchedPathname) pathname = [] then ''/''
      else drop (length matchedPathname) pathname)"






text \<open>Whether the whole chain of a branch matches a pathname.\<close>

definition branch_matches ::
  "(string \<Rightarrow> string option) \<Rightarrow> string \<Rightarrow> 'a RouteBranch \<Rightarrow> bool" where
  "branch_matches dec pathname branch =
     (snd (matchRouteBranch dec [] branch pathname) \<noteq> None)"

text \<open>The routes of the matches of a result, from the root to the leaf.\<close>

definition matched_routes ::
  "error + heap \<times> 'a RouteMatch list option \<Rightarrow> 'a RouteObject list option" where
  "matched_routes res =
     (case res of
        Inl e \<Rightarrow> None
      | Inr (h, None) \<Rightarrow> None
      | Inr (h, Some ms) \<Rightarrow> Some (map rm_route ms))"

text \<open>
  The pattern object of an argument of \<open>matchPath\<close> (a string stands for the pattern that
  ignores case and matches to the end), and what \<open>compilePath\<close> makes of it.
\<close>

definition pattern_object :: "PatternArg \<Rightarrow> PathPattern" where
  "pattern_object pattern =
     (case pattern of
        PatternString p \<Rightarrow>
          \<lparr>pattern_path = p, pattern_caseSensitive = Some False, pattern_end = Some True\<rparr>
      | PatternObject p \<Rightarrow> p)"

definition compiled :: "PatternArg \<Rightarrow> bool \<times> regex \<times> string list" where
  "compiled pattern =
     compilePath (pattern_path (pattern_object pattern))
       (or_default (pattern_caseSensitive (pattern_object pattern)) False)
       (or_default (pattern_end (pattern_object pattern)) True)"

text \<open>The numbers of the groups of an expression.\<close>

fun group_ids :: "regex \<Rightarrow> nat set" where
  "group_ids (Seq r1 r2) = group_ids r1 \<union> group_ids r2"
| "group_ids (Alt r1 r2) = group_ids r1 \<union> group_ids r2"
| "group_ids (Group n r) = insert n (group_ids r)"
| "group_ids (Look r) = group_ids r"
| "group_ids r = {}"

text \<open>
  The pieces of the source text that \<open>compilePath\<close> writes for a path: the path without its
  trailing slashes and star and behind one slash, cut at its \<open>:name\<close> tokens.
\<close>

definition path_pieces :: "string \<Rightarrow> (char + rmatch) list" where
  "path_pieces path =
     pieces False paramToken []
       (replace False (Seq Bol (Star Slash)) (\<lambda>_. ''/'')
          (replace False (Seq (Star Slash) (Seq (Opt (Atom (Chr CHR ''*''))) Eol)) (\<lambda>_. []) path))
       0"

text \<open>
  A path under one root slash: it starts with a slash, and either consists of slashes
  only or goes on with a character other than a slash.
\<close>

definition single_root :: "string \<Rightarrow> bool" where
  "single_root path =
     (case path of
        [] \<Rightarrow> False
      | c # rest \<Rightarrow> c = CHR ''/'' \<and> (list_all sl rest \<or> (rest \<noteq> [] \<and> hd rest \<noteq> CHR ''/'')))"

text \<open>
  A string without its trailing slashes.
\<close>

definition strip_slashes :: "string \<Rightarrow> string" where
  "strip_slashes s = rev (dropWhile sl (rev s))"

text \<open>
  The sibling indices of a branch, from the root down to its own route. Two branches are
  siblings when their index sequences have the same length and agree everywhere but at
  the last place; they stand in sibling order when the first has the smaller last
  index.
\<close>

definition indexes :: "'a RouteBranch \<Rightarrow> nat list" where
  "indexes b = map meta_childrenIndex (branch_routesMeta b)"

definition siblings :: "'a RouteBranch \<Rightarrow> 'a RouteBranch \<Rightarrow> bool" where
  "siblings a b =
     (length (indexes a) = length (indexes b) \<and> butlast (indexes a) = butlast (indexes b))"

definition sibling_order :: "'a RouteBranch \<Rightarrow> 'a RouteBranch \<Rightarrow> bool" where
  "sibling_order a b = (siblings a b \<longrightarrow> last (indexes a) < last (indexes b))"

definition same_score :: "int \<Rightarrow> 'a RouteBranch \<Rightarrow> bool" where
  "same_score k b = (branch_score b = k)"

text \<open>The comparison of two branches by score alone, the higher score first.\<close>

definition by_score :: "'a RouteBranch \<Rightarrow> 'a RouteBranch \<Rightarrow> int" where
  "by_score a b = branch_score b - branch_score a"

text \<open>
  The routes of a tree in the order of the traversal, parents before children and
  siblings in their order, each with the accumulated path of its parents. The fault of
  a single route among them is the error that names it: for a path that starts with \<open>/\<close>
  and not with the path of the parents, the path and the path of the parents; for an
  index route with children, the full path of the route.
\<close>

function nodes :: "string \<Rightarrow> 'a RouteObject list \<Rightarrow> (string \<times> 'a RouteObject) list" where
  "nodes parentPath [] = []"
| "nodes parentPath (r # rs) =
     (parentPath, r)
     # nodes (accumulated_path parentPath r) (or_default (route_children r) [])
     @ nodes parentPath rs"
  by pat_completeness auto
termination
proof (relation "measure (\<lambda>(p, rs). size_list size rs)", goal_cases)
  case 1
  show ?case by simp
next
  case (2 parentPath r rs)
  show ?case by (cases r) (auto simp: or_default_def split: option.splits)
next
  case (3 parentPath r rs)
  show ?case by simp
qed

definition fault :: "string \<Rightarrow> 'a RouteObject \<Rightarrow> error option" where
  "fault parentPath r =
     (let rel = or_default (route_path r) []
      in if startsWith rel ''/'' \<and> \<not> startsWith rel parentPath
         then Some (AbsoluteChildPath rel parentPath)
         else if or_default (route_children r) [] \<noteq> [] \<and> route_index r = Some True
         then Some (IndexRouteWithChildren (accumulated_path parentPath r))
         else None)"

definition first_fault :: "string \<Rightarrow> 'a RouteObject list \<Rightarrow> error option" where
  "first_fault parentPath rs =
     (case find (\<lambda>(p, r). fault p r \<noteq> None) (nodes parentPath rs) of
        None \<Rightarrow> None
      | Some (p, r) \<Rightarrow> fault p r)"

text \<open>The text of a token: the character, or the name behind its colon.\<close>

definition token_text :: "char + string \<Rightarrow> string" where
  "token_text t = (case t of Inl c \<Rightarrow> [c] | Inr k \<Rightarrow> CHR '':'' # k)"

section \<open>Values for the parameters, for the examples\<close>

text \<open>
  The examples that pass objects, not strings, as targets and locations do not call
  \<open>parsePath\<close>; they fill the parameter with the function below.
\<close>

definition parsePath_unused :: "string \<Rightarrow> PartialPath" where
  "parsePath_unused s = \<lparr>opt_pathname = None, opt_search = None, opt_hash = None\<rparr>"

text \<open>
  Where an example passes a string, the string has neither \<open>?\<close> nor \<open>#\<close>; such a
  string is a pathname and nothing else, and the empty string is the empty object.
\<close>

definition parsePath_plain :: "string \<Rightarrow> PartialPath" where
  "parsePath_plain s =
     \<lparr>opt_pathname = (if s = [] then None else Some s), opt_search = None, opt_hash = None\<rparr>"

text \<open>
  For \<open>decodeURIComponent\<close> the examples take the decoder of the escapes below \<open>%80\<close>,
  each of which is one character. The escapes from \<open>%80\<close> on, which the host reads as
  UTF-8, occur in no example, and this decoder rejects them.
\<close>

definition hexval :: "char \<Rightarrow> nat option" where
  "hexval c =
     (let n = (of_char c :: nat)
      in if 48 \<le> n \<and> n \<le> 57 then Some (n - 48)
         else if 65 \<le> n \<and> n \<le> 70 then Some (n - 55)
         else if 97 \<le> n \<and> n \<le> 102 then Some (n - 87)
         else None)"

fun decode_ascii :: "string \<Rightarrow> string option" where
  "decode_ascii [] = Some []"
| "decode_ascii [c] = (if c = CHR ''%'' then None else Some [c])"
| "decode_ascii [c, d] = (if c = CHR ''%'' \<or> d = CHR ''%'' then None else Some [c, d])"
| "decode_ascii (c # h1 # h2 # cs) =
     (if c = CHR ''%''
      then (case (hexval h1, hexval h2) of
              (Some a, Some b) \<Rightarrow>
                if 16 * a + b < 128
                then map_option (\<lambda>s. char_of (16 * a + b) # s) (decode_ascii cs)
                else None
            | _ \<Rightarrow> None)
      else map_option (\<lambda>s. c # s) (decode_ascii (h1 # h2 # cs)))"



section \<open>Evaluating the functions on given values\<close>

lemmas eval_defs =
  matchRoutes_def location_pathname_def to_object_def stripBasename_def
  flattenRoute.simps or_default_def startsWith_def endsWith_def slice_from_def slice_index_def
  slice_def joinPaths_def normalizePathname_def replace_all_def replace_def exec_def match_at_def
  rx.simps Plus_def Opt_def Slash_def Dot_def Word_def Hex_def boundary_def word_chars_def
  canonicalize_def toUpperChar_def toLowerCase_def toLowerChar_def
  computeScore_def test_def paramRe_def isSplat_def truthy_def splatPenalty_def
  indexRouteValue_def dynamicSegmentValue_def emptySegmentValue_def staticSegmentValue_def
  rankRouteBranches_def sort_by_def compareBranches_def compareIndexes_def
  matchRouteBranch_def alloc_def objectAssign_def matchPath_def compilePath_def paramToken_def
  seqs_def dropTrailingSlashes_def group_def matchPath_step_def safelyDecodeURIComponent_def
  is_word_at_def matched_routes_def branch_matches_def char_of_def hexval_def
  bit_Suc_0_iff Let_def

section \<open>Facts about the matcher\<close>

lemma rx_Bol_Seq: "rx i (Seq Bol r) (b, cs, g) = (if b = [] then rx i r (b, cs, g) else [])"
  by simp

lemma rx_Seq_Atom:
  "rx i (Seq (Atom a) r) (b, cs, g) =
     (case cs of [] \<Rightarrow> [] | c # cs' \<Rightarrow> if atom_ok i a c then rx i r (c # b, cs', g) else [])"
  by (simp split: list.splits)

lemma concat_map_concat:
  "concat (map f (concat (map h xs))) = concat (map (\<lambda>x. concat (map f (h x))) xs)"
  by (induction xs) simp_all

lemma rx_Seq_fun: "rx i (Seq r1 r2) = (\<lambda>s. concat (map (rx i r2) (rx i r1 s)))"
  by (rule ext) simp

lemma rx_Seq_assoc: "rx i (Seq (Seq r1 r2) r3) s = rx i (Seq r1 (Seq r2 r3)) s"
  by (simp add: concat_map_concat rx_Seq_fun[of i r2 r3])

lemma star_run_Eol:
  "concat (map (\<lambda>(b', cs'). if cs' = [] then [(b', cs', g)] else []) (star_run i a b cs)) =
     (if list_all (atom_ok i a) cs then [(rev cs @ b, [], g)] else [])"
proof (induction cs arbitrary: b)
  case Nil
  show ?case by simp
next
  case (Cons c cs)
  show ?case
  proof (cases "atom_ok i a c")
    case True
    then show ?thesis using Cons[of "c # b"] by simp
  next
    case False
    then show ?thesis by simp
  qed
qed

lemma rx_Star_Eol:
  "rx i (Seq (Star a) Eol) (b, cs, g) =
     (if list_all (atom_ok i a) cs then [(rev cs @ b, [], g)] else [])"
proof -
  have "rx i (Seq (Star a) Eol) (b, cs, g) =
     concat (map (\<lambda>(b', cs'). if cs' = [] then [(b', cs', g)] else []) (star_run i a b cs))"
    by (simp add: comp_def case_prod_unfold)
  then show ?thesis by (simp only: star_run_Eol)
qed

declare rx.simps [simp del]

lemma match_at_None: "match_at i re b cs = None \<longleftrightarrow> rx i re (b, cs, Map.empty) = []"
  by (auto simp: match_at_def split: list.splits)

lemma match_at_Bol: "match_at i (Seq Bol r) b cs = (if b = [] then match_at i r b cs else None)"
  by (cases b) (simp_all add: match_at_def rx_Bol_Seq)

lemma exec_from_Bol: "b \<noteq> [] \<Longrightarrow> exec_from i (Seq Bol r) b cs = None"
  by (induction cs arbitrary: b) (simp_all add: match_at_Bol)

lemma exec_Bol:
  "exec i (Seq Bol r) s =
     (case match_at i r [] s of None \<Rightarrow> None | Some m \<Rightarrow> Some ([], m))"
  by (cases s) (simp_all add: exec_def exec_from_Bol match_at_Bol split: option.splits)

lemma test_Bol: "test i (Seq Bol r) s \<longleftrightarrow> rx i r ([], s, Map.empty) \<noteq> []"
  using match_at_None[of i r "[]" s] by (auto simp add: test_def exec_Bol split: option.splits)

lemma atom_ok_Word: "atom_ok False Word c \<longleftrightarrow> c \<in> set word_chars"
  by (auto simp: Word_def list_ex_iff canonicalize_def)

section \<open>Searching and replacing\<close>

lemma star_run_not_Nil: "star_run i a b cs \<noteq> []"
  by (induction cs arbitrary: b) auto

lemma star_run_hd:
  "hd (star_run i a b cs) = (rev (takeWhile (atom_ok i a) cs) @ b, dropWhile (atom_ok i a) cs)"
  by (induction cs arbitrary: b) (auto simp: star_run_not_Nil)

lemma rx_Star_disjoint:
  assumes "\<And>b c cs g. atom_ok i a c \<Longrightarrow> rx i r (b, c # cs, g) = []"
  shows "rx i (Seq (Star a) r) (b, cs, g) =
           rx i r (rev (takeWhile (atom_ok i a) cs) @ b, dropWhile (atom_ok i a) cs, g)"
proof -
  have "concat (map (\<lambda>(b', cs'). rx i r (b', cs', g)) (star_run i a b cs)) =
           rx i r (rev (takeWhile (atom_ok i a) cs) @ b, dropWhile (atom_ok i a) cs, g)"
  proof (induction cs arbitrary: b)
    case Nil
    show ?case by simp
  next
    case (Cons c cs)
    show ?case
    proof (cases "atom_ok i a c")
      case True
      then show ?thesis using Cons[of "c # b"] assms[OF True] by simp
    next
      case False
      then show ?thesis by simp
    qed
  qed
  then show ?thesis
    by (simp add: rx.simps comp_def case_prod_unfold)
qed

lemma match_at_hd:
  "match_at i re b cs =
     (if rx i re (b, cs, Map.empty) = [] then None
      else let (b', cs', g) = hd (rx i re (b, cs, Map.empty))
           in Some \<lparr>matched = rev (take (length b' - length b) b'), groups = g\<rparr>)"
  by (auto simp: match_at_def split: list.splits)

lemma of_char_toUpperChar:
  "(of_char (toUpperChar c) :: nat) =
     (let n = of_char c
      in if (97 \<le> n \<and> n \<le> 122) \<or> (224 \<le> n \<and> n \<le> 254 \<and> n \<noteq> 247) then n - 32 else n)"
proof -
  have "(of_char c :: nat) < 256" by simp
  then have "(of_char c - 32 :: nat) mod 256 = of_char c - 32"
    by (simp add: less_imp_diff_less)
  then show ?thesis by (simp add: toUpperChar_def Let_def)
qed

lemma toUpperChar_fixed:
  assumes "(of_char d :: nat) < 65 \<or> (90 < (of_char d :: nat) \<and> (of_char d :: nat) < 97)"
  shows "toUpperChar c = d \<longleftrightarrow> c = d"
proof
  assume "toUpperChar c = d"
  then have "(of_char (toUpperChar c) :: nat) = of_char d" by simp
  then have "(of_char c :: nat) = of_char d"
    using assms unfolding of_char_toUpperChar Let_def by (auto split: if_splits)
  then show "c = d" by simp
next
  assume "c = d"
  then show "toUpperChar c = d" using assms by (auto simp: toUpperChar_def Let_def)
qed

lemma canonicalize_fixed:
  assumes "(of_char d :: nat) < 65 \<or> (90 < (of_char d :: nat) \<and> (of_char d :: nat) < 97)"
  shows "canonicalize i d = canonicalize i c \<longleftrightarrow> c = d"
  using toUpperChar_fixed[OF assms, of c] toUpperChar_fixed[OF assms, of d]
  by (auto simp: canonicalize_def)

lemma atom_ok_Slash: "atom_ok i Slash c \<longleftrightarrow> c = CHR ''/''"
  by (simp add: Slash_def canonicalize_fixed)

lemma atom_ok_Chr_fixed:
  assumes "(of_char d :: nat) < 65 \<or> (90 < (of_char d :: nat) \<and> (of_char d :: nat) < 97)"
  shows "atom_ok i (Chr d) c \<longleftrightarrow> c = d"
  using canonicalize_fixed[OF assms] by simp

lemma exec_from_first_suffix:
  assumes "\<And>b cs. match_at i re b cs = (if P cs then Some (M cs) else None)"
  shows "exec_from i re b cs = map_option (\<lambda>(p, u). (rev b @ p, M u)) (first_suffix P cs)"
proof (induction cs arbitrary: b)
  case Nil
  show ?case by (simp add: assms)
next
  case (Cons c cs)
  show ?case
    by (cases "first_suffix P cs") (auto simp: assms Cons)
qed

lemma first_suffix_SomeI:
  assumes "P u" "\<And>k. k < length p \<Longrightarrow> \<not> P (drop k p @ u)"
  shows "first_suffix P (p @ u) = Some (p, u)"
  using assms
proof (induction p)
  case Nil
  then show ?case by (cases u) auto
next
  case (Cons c p)
  have "\<not> P (c # p @ u)" using Cons.prems(2)[of 0] by simp
  moreover have "first_suffix P (p @ u) = Some (p, u)"
  proof (rule Cons.IH[OF Cons.prems(1)])
    fix k assume "k < length p"
    then show "\<not> P (drop k p @ u)" using Cons.prems(2)[of "Suc k"] by simp
  qed
  ultimately show ?case by simp
qed


lemma replace_first_suffix:
  assumes "\<And>b cs. match_at i re b cs = (if P cs then Some (M cs) else None)"
    and "\<And>cs. P cs \<Longrightarrow> matched (M cs) = cs"
  shows "replace i re f s = (case first_suffix P s of None \<Rightarrow> s | Some (p, u) \<Rightarrow> p @ f (M u))"
proof -
  have app: "\<And>p u. first_suffix P s = Some (p, u) \<Longrightarrow> s = p @ u \<and> P u"
  proof -
    fix p u show "first_suffix P s = Some (p, u) \<Longrightarrow> s = p @ u \<and> P u"
      by (induction s arbitrary: p) (auto split: if_splits)
  qed
  show ?thesis
    unfolding replace_def exec_def exec_from_first_suffix[of i re P M, OF assms(1)]
    using app assms(2) by (cases "first_suffix P s") auto
qed

lemma atom_ok_Slash_fun: "atom_ok i Slash = sl"
  by (rule ext) (simp add: atom_ok_Slash)



lemma atom_ok_Word_fun: "atom_ok False Word = is_word"
  by (rule ext) (simp add: atom_ok_Word is_word_def)

lemma rx_Star_hd:
  "hd (rx i (Star a) (b, cs, g)) =
     (rev (takeWhile (atom_ok i a) cs) @ b, dropWhile (atom_ok i a) cs, g)"
  by (simp add: rx.simps hd_map star_run_not_Nil star_run_hd)

lemma rx_Star_not_Nil: "rx i (Star a) s \<noteq> []"
  by (cases s) (simp add: rx.simps star_run_not_Nil)

lemma match_at_paramToken:
  "match_at False paramToken b cs =
     (case cs of
        [] \<Rightarrow> None
      | c # cs' \<Rightarrow>
          if c = CHR '':'' \<and> takeWhile is_word cs' \<noteq> []
          then Some (token_match (takeWhile is_word cs')) else None)"
proof (cases cs)
  case Nil
  then show ?thesis by (simp add: match_at_hd paramToken_def rx_Seq_Atom)
next
  case (Cons c cs')
  show ?thesis
  proof (cases "c = CHR '':''")
    case False
    then show ?thesis using Cons
      by (simp add: match_at_hd paramToken_def rx_Seq_Atom canonicalize_def)
  next
    case True
    show ?thesis
    proof (cases cs')
      case Nil
      then show ?thesis using Cons True
        by (simp add: match_at_hd paramToken_def rx_Seq_Atom canonicalize_def rx.simps(6) Plus_def)
    next
      case (Cons w ws)
      show ?thesis
      proof (cases "is_word w")
        case False
        then show ?thesis using Cons True \<open>cs = c # cs'\<close>
          by (simp add: match_at_hd paramToken_def rx_Seq_Atom canonicalize_def rx.simps(6)
                Plus_def atom_ok_Word_fun)
      next
        case w: True
        have "rx False paramToken (b, cs, Map.empty) =
            map (\<lambda>(b', cs', g'). (b', cs', g'(1 \<mapsto> rev (take (length b' - length (CHR '':'' # b)) b'))))
              (rx False (Star Word) (w # CHR '':'' # b, ws, Map.empty))"
          using Cons True \<open>cs = c # cs'\<close> w
          by (simp add: paramToken_def rx_Seq_Atom canonicalize_def rx.simps(6) Plus_def
                atom_ok_Word_fun)
        then show ?thesis using Cons True \<open>cs = c # cs'\<close> w
          by (simp add: match_at_hd rx_Star_not_Nil hd_map rx_Star_hd atom_ok_Word_fun
                token_match_def)
      qed
    qed
  qed
qed

lemma pieces_skip:
  "k \<le> length cs \<Longrightarrow> pieces i re b cs k = pieces i re (rev (take k cs) @ b) (drop k cs) 0"
proof (induction cs arbitrary: b k)
  case Nil
  then show ?case by simp
next
  case (Cons c cs)
  show ?case
  proof (cases k)
    case 0
    then show ?thesis by simp
  next
    case (Suc j)
    then show ?thesis using Cons.IH[of j "c # b"] Cons.prems by simp
  qed
qed

lemma pieces_paramToken:
  "pieces False paramToken b cs 0 =
     map (map_sum id token_match) (tokens cs)"
proof (induction cs arbitrary: b rule: tokens.induct)
  case 1
  show ?case by (simp add: match_at_paramToken)
next
  case (2 c cs)
  show ?case
  proof (cases "c = CHR '':'' \<and> takeWhile is_word cs \<noteq> []")
    case True
    let ?n = "takeWhile is_word cs"
    have len: "length ?n \<le> length cs" by (simp add: length_takeWhile_le)
    have "pieces False paramToken b (c # cs) 0 =
            Inr (token_match ?n) # pieces False paramToken (c # b) cs (length ?n)"
      using True by (simp add: match_at_paramToken token_match_def)
    also have "pieces False paramToken (c # b) cs (length ?n) =
            pieces False paramToken (rev (take (length ?n) cs) @ c # b) (drop (length ?n) cs) 0"
      by (rule pieces_skip[OF len])
    also have "drop (length ?n) cs = dropWhile is_word cs"
      by (simp add: dropWhile_eq_drop)
    finally show ?thesis using True 2(1)[OF True] by simp
  next
    case False
    then show ?thesis using 2(2)[OF False] by (auto simp: match_at_paramToken)
  qed
qed


lemma replace_leading_slashes:
  "replace False (Seq Bol (Star Slash)) (\<lambda>_. ''/'') v = CHR ''/'' # dropWhile sl v"
  by (simp add: replace_def exec_Bol match_at_hd rx_Star_not_Nil rx_Star_hd atom_ok_Slash_fun
        dropWhile_eq_drop)


section \<open>What a match consumes and captures\<close>

lemma star_run_consumes:
  "(b', cs') \<in> set (star_run i a b cs) \<Longrightarrow> \<exists>w. b' = rev w @ b \<and> cs = w @ cs'"
proof (induction cs arbitrary: b)
  case Nil
  then show ?case by simp
next
  case (Cons c cs)
  show ?case
  proof (cases "atom_ok i a c \<and> (b', cs') \<in> set (star_run i a (c # b) cs)")
    case True
    then obtain w where "b' = rev w @ c # b" "cs = w @ cs'"
      using Cons.IH[of "c # b"] by blast
    then show ?thesis by (intro exI[of _ "c # w"]) simp
  next
    case False
    then have "b' = b \<and> cs' = c # cs" using Cons.prems by (auto split: if_splits)
    then show ?thesis by simp
  qed
qed

lemma rx_consumes:
  "(b', cs', g') \<in> set (rx i r (b, cs, g)) \<Longrightarrow> \<exists>w. b' = rev w @ b \<and> cs = w @ cs'"
proof (induction r arbitrary: b cs g b' cs' g')
  case Eps
  then show ?case by (simp add: rx.simps)
next
  case (Atom a)
  then show ?case by (auto simp: rx.simps split: list.splits if_splits)
next
  case (Star a)
  then show ?case by (auto simp: rx.simps dest: star_run_consumes)
next
  case (Seq r1 r2)
  from Seq.prems obtain b1 cs1 g1 where
    u: "(b1, cs1, g1) \<in> set (rx i r1 (b, cs, g))" and
    t: "(b', cs', g') \<in> set (rx i r2 (b1, cs1, g1))"
    by (auto simp: rx.simps)
  from Seq.IH(1)[OF u] obtain w1 where w1: "b1 = rev w1 @ b" "cs = w1 @ cs1" by blast
  from Seq.IH(2)[OF t] obtain w2 where w2: "b' = rev w2 @ b1" "cs1 = w2 @ cs'" by blast
  show ?case using w1 w2 by (intro exI[of _ "w1 @ w2"]) simp
next
  case (Alt r1 r2)
  then show ?case by (auto simp: rx.simps)
next
  case (Group n r)
  then show ?case by (auto simp: rx.simps)
next
  case (Look r)
  then show ?case by (auto simp: rx.simps split: list.splits)
next
  case WordB
  then show ?case by (auto simp: rx.simps split: if_splits)
next
  case Bol
  then show ?case by (auto simp: rx.simps split: if_splits)
next
  case Eol
  then show ?case by (auto simp: rx.simps split: if_splits)
qed

lemma rx_groups_frame:
  "(b', cs', g') \<in> set (rx i r (b, cs, g)) \<Longrightarrow> k \<notin> group_ids r \<Longrightarrow> g' k = g k"
proof (induction r arbitrary: b cs g b' cs' g')
  case (Seq r1 r2)
  from Seq.prems obtain b1 cs1 g1 where
    u: "(b1, cs1, g1) \<in> set (rx i r1 (b, cs, g))" and
    t: "(b', cs', g') \<in> set (rx i r2 (b1, cs1, g1))"
    by (auto simp: rx.simps)
  show ?case using Seq.IH(1)[OF u] Seq.IH(2)[OF t] Seq.prems(2) by simp
next
  case (Alt r1 r2)
  then show ?case by (auto simp: rx.simps)
next
  case (Group n r)
  then show ?case by (auto simp: rx.simps)
next
  case (Look r)
  from Look.prems(1) obtain b1 cs1 rest where
    "rx i r (b, cs, g) = (b1, cs1, g') # rest"
    by (cases "rx i r (b, cs, g)") (auto simp: rx.simps)
  then have "(b1, cs1, g') \<in> set (rx i r (b, cs, g))" by simp
  then show ?case using Look.IH Look.prems(2) by simp
qed (auto simp: rx.simps split: list.splits if_splits)


lemma match_at_SomeD:
  assumes "match_at i re b cs = Some r"
  obtains w cs' where "(rev w @ b, cs', groups r) \<in> set (rx i re (b, cs, Map.empty))"
    and "cs = w @ cs'" and "matched r = w"
proof -
  from assms obtain b' cs' g' rest where
    hd: "rx i re (b, cs, Map.empty) = (b', cs', g') # rest" and
    r: "r = \<lparr>matched = rev (take (length b' - length b) b'), groups = g'\<rparr>"
    by (auto simp: match_at_def split: list.splits)
  from hd have mem: "(b', cs', g') \<in> set (rx i re (b, cs, Map.empty))" by simp
  from rx_consumes[OF mem] obtain w where w: "b' = rev w @ b" "cs = w @ cs'" by blast
  show ?thesis
    using that[of w cs'] mem w r by simp
qed

lemma exec_from_SomeD:
  "exec_from i re b cs = Some (pre, r) \<Longrightarrow> \<exists>b0 cs0. match_at i re b0 cs0 = Some r"
  by (induction cs arbitrary: b) (auto split: option.splits)

lemma group_ids_source_parts:
  "group_ids (seqs (source_parts ps k)) \<subseteq> {Suc k..k + length (piece_names ps)}"
proof (induction ps arbitrary: k)
  case Nil
  show ?case by (simp add: seqs_def)
next
  case (Cons p ps)
  show ?case
  proof (cases p)
    case (Inl c)
    then show ?thesis using Cons[of k] by (simp add: seqs_def)
  next
    case (Inr m)
    then show ?thesis using Cons[of "Suc k"] by (auto simp: seqs_def Plus_def)
  qed
qed

lemma in_rx_SeqD:
  assumes "t \<in> set (rx i (Seq r1 r2) s)"
  obtains u where "u \<in> set (rx i r1 s)" "t \<in> set (rx i r2 u)"
  using assms by (auto simp: rx.simps)

lemma in_rx_GroupD:
  assumes "(b', cs', g') \<in> set (rx i (Group n r) (b, cs, g))"
  obtains w g0 where "(rev w @ b, cs', g0) \<in> set (rx i r (b, cs, g))"
    and "b' = rev w @ b" and "g' = g0(n \<mapsto> w)"
proof -
  from assms obtain b1 cs1 g1 where
    mem: "(b1, cs1, g1) \<in> set (rx i r (b, cs, g))" and
    eq: "b' = b1" "cs' = cs1" "g' = g1(n \<mapsto> rev (take (length b1 - length b) b1))"
    by (auto simp: rx.simps)
  from rx_consumes[OF mem] obtain w where w: "b1 = rev w @ b" by blast
  show ?thesis using that[of w g1] mem eq w by simp
qed

lemma in_rx_EolD: "t \<in> set (rx i Eol s) \<Longrightarrow> t = s \<and> fst (snd s) = []"
  by (cases s) (auto simp: rx.simps split: if_splits)

lemma splat_suffix_1:
  assumes "(b', cs', g') \<in> set (rx i (Seq A (Seq (Group N (Star Dot)) Eol)) (b, cs, g))"
  shows "\<exists>w1 w2. b' = rev (w1 @ w2) @ b \<and> g' N = Some w2"
proof -
  from assms obtain u where u: "u \<in> set (rx i A (b, cs, g))"
    and t: "(b', cs', g') \<in> set (rx i (Seq (Group N (Star Dot)) Eol) u)"
    by (rule in_rx_SeqD)
  obtain bu csu gu where [simp]: "u = (bu, csu, gu)" by (cases u)
  from rx_consumes[of bu csu gu i A b cs g] u obtain w1 where w1: "bu = rev w1 @ b" by auto
  from t obtain v where v: "v \<in> set (rx i (Group N (Star Dot)) (bu, csu, gu))"
    and e: "(b', cs', g') \<in> set (rx i Eol v)"
    by (auto elim: in_rx_SeqD)
  from in_rx_EolD[OF e] have ve: "v = (b', cs', g')" by simp
  from v[unfolded ve] obtain w g0 where "b' = rev w @ bu" "g' = g0(N \<mapsto> w)"
    by (rule in_rx_GroupD)
  then show ?thesis using w1 by (intro exI[of _ w1] exI[of _ w]) simp
qed

lemma splat_suffix_2:
  assumes "(b', cs', g') \<in> set (rx i (Seq A (Seq (Alt (Seq (Atom Slash) (Group N (Plus Dot)))
              (Star Slash)) Eol)) (b, cs, g))"
    and "N \<notin> group_ids A" and "g N = None"
  shows "\<exists>w1 w2. b' = rev (w1 @ w2) @ b \<and> (case g' N of None \<Rightarrow> [] | Some w \<Rightarrow> w) = w2"
proof -
  from assms(1) obtain u where u: "u \<in> set (rx i A (b, cs, g))"
    and t: "(b', cs', g') \<in> set (rx i (Seq (Alt (Seq (Atom Slash) (Group N (Plus Dot)))
              (Star Slash)) Eol) u)"
    by (rule in_rx_SeqD)
  obtain bu csu gu where [simp]: "u = (bu, csu, gu)" by (cases u)
  from rx_consumes[of bu csu gu i A b cs g] u obtain w1 where w1: "bu = rev w1 @ b" by auto
  have guN: "gu N = None"
    using rx_groups_frame[of bu csu gu i A b cs g N] u assms(2,3) by simp
  from t obtain v where
    v: "v \<in> set (rx i (Alt (Seq (Atom Slash) (Group N (Plus Dot))) (Star Slash)) (bu, csu, gu))"
    and e: "(b', cs', g') \<in> set (rx i Eol v)"
    by (auto elim: in_rx_SeqD)
  from in_rx_EolD[OF e] have ve: "v = (b', cs', g')" by simp
  from v[unfolded ve] consider
    (splat) "(b', cs', g') \<in> set (rx i (Seq (Atom Slash) (Group N (Plus Dot))) (bu, csu, gu))"
    | (slashes) "(b', cs', g') \<in> set (rx i (Star Slash) (bu, csu, gu))"
    by (auto simp: rx.simps(5))
  then show ?thesis
  proof cases
    case splat
    then obtain x where x: "x \<in> set (rx i (Atom Slash) (bu, csu, gu))"
      and g: "(b', cs', g') \<in> set (rx i (Group N (Plus Dot)) x)"
      by (rule in_rx_SeqD)
    obtain bx csx gx where [simp]: "x = (bx, csx, gx)" by (cases x)
    from rx_consumes[of bx csx gx i "Atom Slash" bu csu gu] x
    obtain wx where wx: "bx = rev wx @ bu" by auto
    from g obtain w g0 where "b' = rev w @ bx" "g' = g0(N \<mapsto> w)"
      by (auto elim: in_rx_GroupD)
    then show ?thesis using w1 wx
      by (intro exI[of _ "w1 @ wx"] exI[of _ w]) simp
  next
    case slashes
    from rx_consumes[OF slashes] obtain w where w: "b' = rev w @ bu" by blast
    have "g' N = None"
      using rx_groups_frame[OF slashes, of N] guN by simp
    then show ?thesis using w w1
      by (intro exI[of _ "w1 @ w"] exI[of _ "[]"]) simp
  qed
qed



section \<open>The score of a path\<close>

lemma test_paramRe: "test False paramRe s \<longleftrightarrow> is_param s"
proof -
  have "test False paramRe s \<longleftrightarrow>
     (\<exists>c n. s = CHR '':'' # c # n \<and> c \<in> set word_chars \<and> list_all (atom_ok False Word) n)"
    unfolding paramRe_def test_Bol Plus_def
    by (simp add: rx_Seq_assoc rx_Seq_Atom rx_Star_Eol atom_ok_Word canonicalize_def
          split: list.splits)
  also have "\<dots> \<longleftrightarrow> is_param s"
    unfolding is_param_def by (auto simp: atom_ok_Word list_all_iff neq_Nil_conv split: list.splits)
  finally show ?thesis .
qed

lemma foldl_add_sum: "foldl (\<lambda>acc x. acc + f x) (a::int) xs = a + sum_list (map f xs)"
  by (induction xs arbitrary: a) simp_all

lemma length_split: "length (split sep s) = Suc (count_list s sep)"
  by (induction s) (auto split: list.splits)

lemma join_split: "join sep (split sep s) = s"
proof (induction s)
  case Nil
  show ?case by simp
next
  case (Cons c s)
  then show ?case
    by (cases "split sep s"; cases "tl (split sep s)") (auto split: if_splits)
qed

text \<open>
  C2. For every path and index flag, the score is the number of segments of the path
  split on \<open>/\<close>, minus 2 if a segment is exactly \<open>*\<close>, plus 2 if the flag is true, plus,
  for every segment other than \<open>*\<close>, 3 if it is a dynamic segment, 1 if it is empty and
  10 otherwise.
\<close>

theorem computeScore_formula:
  "computeScore p b =
     (let segs = split CHR ''/'' p
      in int (length segs) - (if ''*'' \<in> set segs then 2 else 0)
         + (if b = Some True then 2 else 0)
         + (\<Sum>s\<leftarrow>filter (\<lambda>s. s \<noteq> ''*'') segs.
              if is_param s then 3 else if s = [] then 1 else 10))"
  unfolding computeScore_def Let_def foldl_add_sum test_paramRe
    splatPenalty_def indexRouteValue_def dynamicSegmentValue_def emptySegmentValue_def
    staticSegmentValue_def
  by (simp add: list_ex_iff isSplat_def truthy_def)

theorem computeScore_formula_witness:
  "computeScore ''/users/:id/*'' (Some True) = 4 - 2 + 2 + (1 + 10 + 3)"
  using computeScore_formula [of "''/users/:id/*''" "Some True"]
  by (simp add: is_param_def word_chars_def)

section \<open>Resolving against the route chain\<close>

lemma split_not_Nil: "split sep s \<noteq> []"
  by (cases s) (auto split: list.splits)

lemma hd_split: "hd (split sep s) = takeWhile (\<lambda>c. c \<noteq> sep) s"
  using split_not_Nil by (induction s) (auto split: list.splits)

lemma shift_parents_eq:
  "shift_parents segs k =
     (dropWhile (\<lambda>s. s = ''..'') segs, k - int (length (takeWhile (\<lambda>s. s = ''..'') segs)))"
  by (induction segs arbitrary: k) auto

lemma no_parent_segment:
  assumes "\<not> startsWith tp ''..''"
  shows "takeWhile (\<lambda>s. s = ''..'') (split CHR ''/'' tp) = []"
proof -
  have "hd (split CHR ''/'' tp) \<noteq> ''..''"
  proof
    assume "hd (split CHR ''/'' tp) = ''..''"
    then have "takeWhile (\<lambda>c. c \<noteq> CHR ''/'') tp = ''..''"
      by (simp add: hd_split)
    then have "take 2 tp = ''..''"
      by (metis (no_types, lifting) append_eq_conv_conj length_Cons list.size(3)
            numeral_2_eq_2 takeWhile_dropWhile_id)
    with assms show False
      by (simp add: startsWith_def numeral_2_eq_2)
  qed
  then show ?thesis
    using split_not_Nil[of "CHR ''/''" tp] by (cases "split CHR ''/'' tp") auto
qed

lemma resolveTo_leading_parents:
  assumes "opt_pathname t = Some tp"
  shows "resolveTo parsePath (ToPath t) routePathnames locationPathname =
     (let segs = split CHR ''/'' tp;
          k = length (takeWhile (\<lambda>s. s = ''..'') segs);
          rest = dropWhile (\<lambda>s. s = ''..'') segs;
          n = length routePathnames;
          base = (if k < n then routePathnames ! (n - 1 - k) else ''/'');
          p = resolvePath parsePath (ToPath (t\<lparr>opt_pathname := Some (join CHR ''/'' rest)\<rparr>))
                base
      in if tp \<noteq> ''/'' \<and> endsWith tp ''/'' \<and> \<not> endsWith (path_pathname p) ''/''
         then p\<lparr>path_pathname := path_pathname p @ ''/''\<rparr> else p)"
proof -
  have t: "t\<lparr>opt_pathname := Some tp\<rparr> = t"
    using assms by simp
  have idx: "\<And>k. (if int (length routePathnames) - 1 - int k \<ge> 0
              then routePathnames ! nat (int (length routePathnames) - 1 - int k) else ''/'')
           = (if k < length routePathnames then routePathnames ! (length routePathnames - 1 - k)
              else ''/'')"
    by (auto simp: nat_diff_distrib' intro!: arg_cong[where f="(!) routePathnames"])
  show ?thesis
  proof (cases "startsWith tp ''..''")
    case True
    then have ne: "tp \<noteq> []" "tp \<noteq> ''/''"
      by (auto simp: startsWith_def)
    show ?thesis
      using True ne assms idx[of "length (takeWhile (\<lambda>s. s = ''..'') (split CHR ''/'' tp))"]
      by (simp add: resolveTo_def to_object_def Let_def shift_parents_eq)
  next
    case False
    have k0: "takeWhile (\<lambda>s. s = ''..'') (split CHR ''/'' tp) = []"
      using no_parent_segment[OF False] .
    then have d0: "dropWhile (\<lambda>s. s = ''..'') (split CHR ''/'' tp) = split CHR ''/'' tp"
      by (metis takeWhile_dropWhile_id append_Nil)
    show ?thesis
    proof (cases "tp = []")
      case True
      then have t': "t\<lparr>opt_pathname := Some []\<rparr> = t"
        using t by simp
      have s: "\<not> startsWith ''/'' ''..''"
        by (simp add: startsWith_def)
      show ?thesis
        using True assms
        by (simp add: resolveTo_def to_object_def Let_def endsWith_def k0 d0 join_split t' s
              nat_diff_distrib')
    next
      case ne: False
      show ?thesis
        using False ne assms
        by (simp add: resolveTo_def to_object_def Let_def k0 d0 join_split nat_diff_distrib' t)
    qed
  qed
qed

text \<open>
  C5, as the specification has it: a target whose pathname is the empty string resolves
  to the pathname of the current location. It does not: with the route chain
  \<open>["/users"]\<close> at the location \<open>/users/5\<close> the result is \<open>/users\<close>.
\<close>

theorem resolveTo_empty_pathname_counterexample:
  "path_pathname (resolveTo parsePath_unused
      (ToPath \<lparr>opt_pathname = Some [], opt_search = None, opt_hash = None\<rparr>)
      [''/users''] ''/users/5'') \<noteq> ''/users/5''"
  by (simp add: resolveTo_def resolvePath_def to_object_def startsWith_def endsWith_def)

text \<open>
  C5, amended. A target whose pathname is the empty string resolves against the route
  chain: the resulting pathname is the last entry of \<open>routePathnames\<close>, or \<open>/\<close> when
  the chain is empty, whatever the location is. It is a target without a pathname that
  resolves to the pathname of the current location.
\<close>

theorem resolveTo_empty_pathname:
  "path_pathname (resolveTo parsePath (ToPath (t\<lparr>opt_pathname := Some []\<rparr>)) routePathnames
      locationPathname) = (if routePathnames = [] then ''/'' else last routePathnames)
   \<and> path_pathname (resolveTo parsePath (ToPath (t\<lparr>opt_pathname := None\<rparr>)) routePathnames
      locationPathname) = locationPathname"
  by (simp add: resolveTo_def resolvePath_def to_object_def startsWith_def endsWith_def Let_def
        last_conv_nth nat_diff_distrib')

theorem resolveTo_empty_pathname_witness:
  "path_pathname (resolveTo parsePath_unused
      (ToPath \<lparr>opt_pathname = Some [], opt_search = Some ''?q'', opt_hash = None\<rparr>)
      [''/users'', ''/users/5''] ''/users/5/edit'') = ''/users/5''
   \<and> path_pathname (resolveTo parsePath_unused
      (ToPath \<lparr>opt_pathname = None, opt_search = Some ''?q'', opt_hash = None\<rparr>)
      [''/users'', ''/users/5''] ''/users/5/edit'') = ''/users/5/edit''"
  using resolveTo_empty_pathname
    [of parsePath_unused "\<lparr>opt_pathname = None, opt_search = Some ''?q'', opt_hash = None\<rparr>"
      "[''/users'', ''/users/5'']" "''/users/5/edit''"]
  by simp

lemma resolveTo_object:
  "toArg \<noteq> ToString [] \<Longrightarrow>
     resolveTo parsePath toArg routePathnames locationPathname =
     resolveTo parsePath (ToPath (to_object parsePath toArg)) routePathnames locationPathname"
  by (simp add: resolveTo_def to_object_def)

text \<open>
  C6. The target is a string, which \<open>parsePath\<close> reads, or an object. With \<open>k\<close> leading
  \<open>..\<close> segments in its pathname, the base of the resolution is the entry \<open>k\<close> levels
  up the route chain from its last entry, and \<open>/\<close> when the chain has no more than \<open>k\<close>
  entries; the rest of the target is resolved against that base, and a trailing slash of
  the target is kept. In particular the target \<open>..\<close>, as an object or as a string that
  \<open>parsePath\<close> reads as that pathname, with the chain \<open>["/users", "/users/5"]\<close> resolves
  to \<open>/users\<close>.
\<close>

theorem resolveTo_parents:
  "(opt_pathname t = Some tp \<longrightarrow>
    resolveTo parsePath (ToPath t) routePathnames locationPathname =
     (let segs = split CHR ''/'' tp;
          k = length (takeWhile (\<lambda>s. s = ''..'') segs);
          rest = dropWhile (\<lambda>s. s = ''..'') segs;
          n = length routePathnames;
          base = (if k < n then routePathnames ! (n - 1 - k) else ''/'');
          p = resolvePath parsePath
                (ToPath (t\<lparr>opt_pathname := Some (join CHR ''/'' rest)\<rparr>)) base
      in if tp \<noteq> ''/'' \<and> endsWith tp ''/'' \<and> \<not> endsWith (path_pathname p) ''/''
         then p\<lparr>path_pathname := path_pathname p @ ''/''\<rparr> else p))
   \<and> (str \<noteq> [] \<and> opt_pathname (parsePath str) = Some tp \<longrightarrow>
    resolveTo parsePath (ToString str) routePathnames locationPathname =
     (let segs = split CHR ''/'' tp;
          k = length (takeWhile (\<lambda>s. s = ''..'') segs);
          rest = dropWhile (\<lambda>s. s = ''..'') segs;
          n = length routePathnames;
          base = (if k < n then routePathnames ! (n - 1 - k) else ''/'');
          p = resolvePath parsePath
                (ToPath (parsePath str\<lparr>opt_pathname := Some (join CHR ''/'' rest)\<rparr>)) base
      in if tp \<noteq> ''/'' \<and> endsWith tp ''/'' \<and> \<not> endsWith (path_pathname p) ''/''
         then p\<lparr>path_pathname := path_pathname p @ ''/''\<rparr> else p))
   \<and> path_pathname (resolveTo parsePath
        (ToPath \<lparr>opt_pathname = Some ''..'', opt_search = None, opt_hash = None\<rparr>)
        [''/users'', ''/users/5''] ''/users/5'') = ''/users''
   \<and> (parsePath ''..'' = \<lparr>opt_pathname = Some ''..'', opt_search = None, opt_hash = None\<rparr> \<longrightarrow>
        path_pathname (resolveTo parsePath (ToString ''..'')
          [''/users'', ''/users/5''] ''/users/5'') = ''/users'')"
proof (intro conjI impI)
  assume "opt_pathname t = Some tp"
  then show "resolveTo parsePath (ToPath t) routePathnames locationPathname =
     (let segs = split CHR ''/'' tp;
          k = length (takeWhile (\<lambda>s. s = ''..'') segs);
          rest = dropWhile (\<lambda>s. s = ''..'') segs;
          n = length routePathnames;
          base = (if k < n then routePathnames ! (n - 1 - k) else ''/'');
          p = resolvePath parsePath
                (ToPath (t\<lparr>opt_pathname := Some (join CHR ''/'' rest)\<rparr>)) base
      in if tp \<noteq> ''/'' \<and> endsWith tp ''/'' \<and> \<not> endsWith (path_pathname p) ''/''
         then p\<lparr>path_pathname := path_pathname p @ ''/''\<rparr> else p)"
    by (rule resolveTo_leading_parents)
next
  assume a: "str \<noteq> [] \<and> opt_pathname (parsePath str) = Some tp"
  then have "resolveTo parsePath (ToString str) routePathnames locationPathname =
        resolveTo parsePath (ToPath (parsePath str)) routePathnames locationPathname"
    using resolveTo_object[of "ToString str" parsePath routePathnames locationPathname]
    by (simp add: to_object_def)
  then show "resolveTo parsePath (ToString str) routePathnames locationPathname =
     (let segs = split CHR ''/'' tp;
          k = length (takeWhile (\<lambda>s. s = ''..'') segs);
          rest = dropWhile (\<lambda>s. s = ''..'') segs;
          n = length routePathnames;
          base = (if k < n then routePathnames ! (n - 1 - k) else ''/'');
          p = resolvePath parsePath
                (ToPath (parsePath str\<lparr>opt_pathname := Some (join CHR ''/'' rest)\<rparr>)) base
      in if tp \<noteq> ''/'' \<and> endsWith tp ''/'' \<and> \<not> endsWith (path_pathname p) ''/''
         then p\<lparr>path_pathname := path_pathname p @ ''/''\<rparr> else p)"
    using a resolveTo_leading_parents[of "parsePath str" tp parsePath routePathnames
        locationPathname]
    by simp
next
  show "path_pathname (resolveTo parsePath
        (ToPath \<lparr>opt_pathname = Some ''..'', opt_search = None, opt_hash = None\<rparr>)
        [''/users'', ''/users/5''] ''/users/5'') = ''/users''"
    using resolveTo_leading_parents
      [of "\<lparr>opt_pathname = Some ''..'', opt_search = None, opt_hash = None\<rparr>" "''..''"
        parsePath "[''/users'', ''/users/5'']" "''/users/5''"]
    by (simp add: resolvePath_def to_object_def endsWith_def)
next
  assume p: "parsePath ''..'' = \<lparr>opt_pathname = Some ''..'', opt_search = None, opt_hash = None\<rparr>"
  have "resolveTo parsePath (ToString ''..'') [''/users'', ''/users/5''] ''/users/5'' =
        resolveTo parsePath
          (ToPath \<lparr>opt_pathname = Some ''..'', opt_search = None, opt_hash = None\<rparr>)
          [''/users'', ''/users/5''] ''/users/5''"
    using resolveTo_object[of "ToString ''..''" parsePath "[''/users'', ''/users/5'']"
        "''/users/5''"]
    by (simp add: to_object_def p)
  then show "path_pathname (resolveTo parsePath (ToString ''..'')
          [''/users'', ''/users/5''] ''/users/5'') = ''/users''"
    using resolveTo_leading_parents
      [of "\<lparr>opt_pathname = Some ''..'', opt_search = None, opt_hash = None\<rparr>" "''..''"
        parsePath "[''/users'', ''/users/5'']" "''/users/5''"]
    by (simp add: resolvePath_def to_object_def endsWith_def)
qed

theorem resolveTo_parents_witness:
  "path_pathname (resolveTo parsePath_plain (ToString ''../../../x/'')
      [''/users'', ''/users/5''] ''/users/5'') = ''/x/''
   \<and> path_pathname (resolveTo parsePath_plain
      (ToPath \<lparr>opt_pathname = Some ''../edit'', opt_search = None, opt_hash = None\<rparr>)
      [''/users'', ''/users/5''] ''/users/5'') = ''/users/edit''
   \<and> path_pathname (resolveTo parsePath_plain (ToString ''..'')
      [''/users'', ''/users/5''] ''/users/5'') = ''/users''"
proof -
  have a: "path_pathname (resolveTo parsePath_plain (ToString ''../../../x/'')
      [''/users'', ''/users/5''] ''/users/5'') = ''/x/''"
    using resolveTo_parents
      [where str = "''../../../x/''" and tp = "''../../../x/''"
         and parsePath = parsePath_plain and routePathnames = "[''/users'', ''/users/5'']"
         and locationPathname = "''/users/5''", THEN conjunct2, THEN conjunct1]
    by (simp add: parsePath_plain_def resolvePath_def to_object_def endsWith_def startsWith_def
          resolvePathname_def replace_def exec_def match_at_def Plus_def Slash_def rx.simps
          canonicalize_def)
  have b: "path_pathname (resolveTo parsePath_plain
      (ToPath \<lparr>opt_pathname = Some ''../edit'', opt_search = None, opt_hash = None\<rparr>)
      [''/users'', ''/users/5''] ''/users/5'') = ''/users/edit''"
    using resolveTo_parents
      [where t = "\<lparr>opt_pathname = Some ''../edit'', opt_search = None, opt_hash = None\<rparr>"
         and tp = "''../edit''"
         and parsePath = parsePath_plain and routePathnames = "[''/users'', ''/users/5'']"
         and locationPathname = "''/users/5''", THEN conjunct1]
    by (simp add: resolvePath_def to_object_def endsWith_def startsWith_def resolvePathname_def
          replace_def exec_def match_at_def Plus_def Slash_def rx.simps canonicalize_def)
  have c: "path_pathname (resolveTo parsePath_plain (ToString ''..'')
      [''/users'', ''/users/5''] ''/users/5'') = ''/users''"
    using resolveTo_parents
      [where parsePath = parsePath_plain, THEN conjunct2, THEN conjunct2, THEN conjunct2]
    by (simp add: parsePath_plain_def)
  show ?thesis using a b c by simp
qed

section \<open>Generating a path\<close>









section \<open>The errors of the flattening\<close>

declare flattenRoute.simps [simp del]
declare ill_formed.simps [simp del]

lemma slice_from_nat: "slice_from s (int n) = drop n s"
  by (simp add: slice_from_def slice_index_def min_def)

lemma flattenRoute_unfold:
  "flattenRoute r index branches parentsMeta parentPath =
     (let rel = or_default (route_path r) [];
          cs = or_default (route_children r) [];
          path = accumulated_path parentPath r;
          routesMeta = parentsMeta @
            [\<lparr>meta_relativePath =
                (if startsWith rel ''/'' then drop (length parentPath) rel else rel),
              meta_caseSensitive = (route_caseSensitive r = Some True),
              meta_childrenIndex = index, meta_route = r\<rparr>]
      in if startsWith rel ''/'' \<and> \<not> startsWith rel parentPath
         then Inl (AbsoluteChildPath rel parentPath)
         else if cs \<noteq> [] \<and> route_index r = Some True
         then Inl (IndexRouteWithChildren path)
         else case (if cs \<noteq> [] then flattenRoutes cs 0 branches routesMeta path
                    else Inr branches) of
                Inl e \<Rightarrow> Inl e
              | Inr branches \<Rightarrow>
                  if route_path r = None \<and> \<not> truthy (route_index r) then Inr branches
                  else Inr (branches @
                              [\<lparr>branch_path = path,
                                branch_score = computeScore path (route_index r),
                                branch_routesMeta = routesMeta\<rparr>]))"
  unfolding flattenRoute.simps[of r] Let_def accumulated_path_def slice_from_nat
  by (simp cong: if_cong)

lemma flatten_fails_iff:
  "(\<exists>e. flattenRoutes rs i bs pm pp = Inl e) \<longleftrightarrow> list_ex (ill_formed pp) rs"
  "(\<exists>e. flattenRoute r i bs pm pp = Inl e) \<longleftrightarrow> ill_formed pp r"
proof (induction rs i bs pm pp and r i bs pm pp rule: flattenRoutes_flattenRoute.induct)
  case (1 index branches parentsMeta parentPath)
  show ?case by simp
next
  case (2 r rs index branches parentsMeta parentPath)
  show ?case
  proof (cases "flattenRoute r index branches parentsMeta parentPath")
    case (Inl e)
    then show ?thesis using 2(1) by auto
  next
    case (Inr bs')
    then show ?thesis using 2(1) 2(2)[OF Inr] by auto
  qed
next
  case (3 r index branches parentsMeta parentPath)
  define rel where "rel = or_default (route_path r) []"
  define cs where "cs = or_default (route_children r) []"
  define p where "p = accumulated_path parentPath r"
  define rm where "rm = parentsMeta @
            [\<lparr>meta_relativePath =
                (if startsWith rel ''/'' then drop (length parentPath) rel else rel),
              meta_caseSensitive = (route_caseSensitive r = Some True),
              meta_childrenIndex = index, meta_route = r\<rparr>]"
  have IH: "\<not> (startsWith rel ''/'' \<and> \<not> startsWith rel parentPath) \<Longrightarrow>
            \<not> (cs \<noteq> [] \<and> route_index r = Some True) \<Longrightarrow> cs \<noteq> [] \<Longrightarrow>
            (\<exists>e. flattenRoutes cs 0 branches rm p = Inl e) = list_ex (ill_formed p) cs"
    using 3[OF refl _ refl refl refl refl refl]
    unfolding rel_def cs_def p_def rm_def accumulated_path_def Let_def slice_from_nat
    by simp
  show ?case
    unfolding flattenRoute_unfold ill_formed.simps[of parentPath r] Let_def
      rel_def[symmetric] cs_def[symmetric] p_def[symmetric] rm_def[symmetric]
    using IH by (auto split: sum.splits)
qed

lemma strip_default_basename: "stripBasename p ''/'' = Some p"
  by (simp add: stripBasename_def)

lemma flatten_error_kind:
  "flattenRoutes rs i bs pm pp = Inl e \<Longrightarrow>
     (\<exists>c p. e = AbsoluteChildPath c p) \<or> (\<exists>p. e = IndexRouteWithChildren p)"
  "flattenRoute r i bs pm pp = Inl e \<Longrightarrow>
     (\<exists>c p. e = AbsoluteChildPath c p) \<or> (\<exists>p. e = IndexRouteWithChildren p)"
proof (induction rs i bs pm pp and r i bs pm pp rule: flattenRoutes_flattenRoute.induct)
  case (1 index branches parentsMeta parentPath)
  then show ?case by simp
next
  case (2 r rs index branches parentsMeta parentPath)
  then show ?case by (auto split: sum.splits)
next
  case (3 r index branches parentsMeta parentPath)
  have IH: "flattenRoutes (or_default (route_children r) []) 0 branches
              (parentsMeta @
                 [\<lparr>meta_relativePath =
                     (if startsWith (or_default (route_path r) []) ''/''
                      then drop (length parentPath) (or_default (route_path r) [])
                      else or_default (route_path r) []),
                   meta_caseSensitive = (route_caseSensitive r = Some True),
                   meta_childrenIndex = index, meta_route = r\<rparr>])
              (accumulated_path parentPath r) = Inl e \<Longrightarrow>
            \<not> (startsWith (or_default (route_path r) []) ''/''
               \<and> \<not> startsWith (or_default (route_path r) []) parentPath) \<Longrightarrow>
            \<not> (or_default (route_children r) [] \<noteq> [] \<and> route_index r = Some True) \<Longrightarrow>
            or_default (route_children r) [] \<noteq> [] \<Longrightarrow>
            (\<exists>c p. e = AbsoluteChildPath c p) \<or> (\<exists>p. e = IndexRouteWithChildren p)"
    using 3(1)[OF refl _ refl refl refl refl refl]
    unfolding accumulated_path_def Let_def slice_from_nat
    by simp
  show ?case
    using 3(2) IH
    unfolding flattenRoute_unfold Let_def
    by (auto split: sum.splits if_splits)
qed

declare nodes.simps [simp del]

lemma find_append:
  "find P (xs @ ys) = (case find P xs of None \<Rightarrow> find P ys | Some x \<Rightarrow> Some x)"
  by (induction xs) simp_all

lemma find_holds: "find P xs = Some x \<Longrightarrow> P x"
  by (induction xs) (auto split: if_splits)

lemma find_in_set: "find P xs = Some x \<Longrightarrow> x \<in> set xs"
  by (induction xs) (auto split: if_splits)

lemma first_fault_Nil: "first_fault pp [] = None"
  by (simp add: first_fault_def nodes.simps)

lemma first_fault_append:
  "nodes pp (r # rs) = nodes pp [r] @ nodes pp rs"
  by (simp add: nodes.simps)

lemma first_fault_Cons:
  "first_fault pp (r # rs) =
     (case first_fault pp [r] of Some e \<Rightarrow> Some e | None \<Rightarrow> first_fault pp rs)"
proof (cases "find (\<lambda>(p, r). fault p r \<noteq> None) (nodes pp [r])")
  case None
  then show ?thesis
    unfolding first_fault_def first_fault_append[of pp r rs] find_append by simp
next
  case (Some qr)
  obtain q r' where qr: "qr = (q, r')" by (cases qr)
  from find_holds[OF Some] qr obtain e where "fault q r' = Some e" by auto
  then show ?thesis
    unfolding first_fault_def first_fault_append[of pp r rs] find_append Some qr by simp
qed

lemma first_fault_single:
  "first_fault pp [r] =
     (case fault pp r of
        Some e \<Rightarrow> Some e
      | None \<Rightarrow> first_fault (accumulated_path pp r) (or_default (route_children r) []))"
proof (cases "fault pp r")
  case None
  then show ?thesis
    unfolding first_fault_def nodes.simps by simp
next
  case (Some e)
  then show ?thesis
    unfolding first_fault_def nodes.simps by simp
qed

lemma flatten_first_fault:
  "flattenRoutes rs i bs pm pp = Inl e \<longleftrightarrow> first_fault pp rs = Some e"
  "flattenRoute r i bs pm pp = Inl e \<longleftrightarrow> first_fault pp [r] = Some e"
proof (induction rs i bs pm pp and r i bs pm pp arbitrary: e and e
    rule: flattenRoutes_flattenRoute.induct)
  case (1 index branches parentsMeta parentPath)
  show ?case by (simp add: first_fault_Nil)
next
  case (2 r rs index branches parentsMeta parentPath)
  show ?case
  proof (cases "flattenRoute r index branches parentsMeta parentPath")
    case (Inl e')
    then have "first_fault parentPath [r] = Some e'"
      using 2(1)[of e'] by simp
    then show ?thesis
      unfolding first_fault_Cons[of parentPath r rs] using Inl by auto
  next
    case (Inr bs')
    have "first_fault parentPath [r] = None"
    proof (cases "first_fault parentPath [r]")
      case None
      then show ?thesis .
    next
      case (Some e')
      then show ?thesis using 2(1)[of e'] Inr by simp
    qed
    then show ?thesis
      unfolding first_fault_Cons[of parentPath r rs] using Inr 2(2)[OF Inr, of e] by simp
  qed
next
  case (3 r index branches parentsMeta parentPath)
  define rel where "rel = or_default (route_path r) []"
  define cs where "cs = or_default (route_children r) []"
  define p where "p = accumulated_path parentPath r"
  define rm where "rm = parentsMeta @
            [\<lparr>meta_relativePath =
                (if startsWith rel ''/'' then drop (length parentPath) rel else rel),
              meta_caseSensitive = (route_caseSensitive r = Some True),
              meta_childrenIndex = index, meta_route = r\<rparr>]"
  have IH: "\<not> (startsWith rel ''/'' \<and> \<not> startsWith rel parentPath) \<Longrightarrow>
            \<not> (cs \<noteq> [] \<and> route_index r = Some True) \<Longrightarrow> cs \<noteq> [] \<Longrightarrow>
            (flattenRoutes cs 0 branches rm p = Inl e) = (first_fault p cs = Some e)"
    using 3[OF refl _ refl refl refl refl refl, of e]
    unfolding rel_def cs_def p_def rm_def accumulated_path_def Let_def slice_from_nat
    by simp
  consider (abs) "startsWith rel ''/'' \<and> \<not> startsWith rel parentPath"
    | (idx) "\<not> (startsWith rel ''/'' \<and> \<not> startsWith rel parentPath)"
            "cs \<noteq> [] \<and> route_index r = Some True"
    | (leaf) "\<not> (startsWith rel ''/'' \<and> \<not> startsWith rel parentPath)"
            "\<not> (cs \<noteq> [] \<and> route_index r = Some True)" "cs = []"
    | (inner) "\<not> (startsWith rel ''/'' \<and> \<not> startsWith rel parentPath)"
            "\<not> (cs \<noteq> [] \<and> route_index r = Some True)" "cs \<noteq> []"
    by blast
  then show ?case
  proof cases
    case abs
    then show ?thesis
      unfolding flattenRoute_unfold first_fault_single fault_def Let_def
        rel_def[symmetric] cs_def[symmetric] p_def[symmetric] rm_def[symmetric]
      by auto
  next
    case idx
    then show ?thesis
      unfolding flattenRoute_unfold first_fault_single fault_def Let_def
        rel_def[symmetric] cs_def[symmetric] p_def[symmetric] rm_def[symmetric]
      by auto
  next
    case leaf
    then show ?thesis
      unfolding flattenRoute_unfold first_fault_single fault_def Let_def
        rel_def[symmetric] cs_def[symmetric] p_def[symmetric] rm_def[symmetric]
      by (auto simp: first_fault_Nil)
  next
    case inner
    then show ?thesis
      unfolding flattenRoute_unfold first_fault_single fault_def Let_def
        rel_def[symmetric] cs_def[symmetric] p_def[symmetric] rm_def[symmetric]
      using IH[OF inner] by (auto split: sum.splits)
  qed
qed

lemma stripBasename_succeeds:
  "stripBasename p b \<noteq> None \<longleftrightarrow>
     b = ''/'' \<or> (startsWith (toLowerCase p) (toLowerCase b)
                  \<and> (length p \<le> length b \<or> p ! length b = CHR ''/''))"
proof -
  have "take 1 (drop (length b) p) =
          (if length p \<le> length b then [] else [p ! length b])"
    by (cases "drop (length b) p") (auto simp: hd_drop_conv_nth dest: arg_cong[where f=hd])
  then show ?thesis
    by (auto simp: stripBasename_def Let_def)
qed

lemma first_fault_ill_formed:
  "first_fault [] routes \<noteq> None \<longleftrightarrow> list_ex (ill_formed []) routes"
proof -
  have "first_fault [] routes \<noteq> None \<longleftrightarrow> (\<exists>e. first_fault [] routes = Some e)"
    by simp
  also have "\<dots> \<longleftrightarrow> (\<exists>e. flattenRoutes routes 0 [] [] [] = Inl e)"
    by (simp only: flatten_first_fault(1))
  also have "\<dots> \<longleftrightarrow> list_ex (ill_formed []) routes"
    by (rule flatten_fails_iff(1))
  finally show ?thesis .
qed

text \<open>
  C8, as the specification has it: whenever the tree has an ill-formed route,
  \<open>matchRoutes\<close> fails. It does not when the pathname does not start with the basename:
  it then returns null before it looks at the routes. Here an index route has a child.
\<close>

theorem matchRoutes_fatal_counterexample:
  "list_ex (ill_formed [])
     [RouteObject None (Some [RouteObject None None None (Some ''x'') ()]) (Some True) None ()]
   \<and> matchRoutes decode_ascii parsePath_unused []
        [RouteObject None (Some [RouteObject None None None (Some ''x'') ()]) (Some True) None ()]
        (ToPath \<lparr>opt_pathname = Some ''/home'', opt_search = None, opt_hash = None\<rparr>)
        ''/app'' = Inr ([], None)"
  by (simp add: ill_formed.simps or_default_def matchRoutes_def location_pathname_def
        to_object_def stripBasename_def startsWith_def toLowerCase_def toLowerChar_def)

text \<open>
  C8, amended. When \<open>stripBasename\<close> gives no pathname, \<open>matchRoutes\<close> returns null
  and does not look at the routes. It gives one when the basename is \<open>/\<close>, or when the
  pathname of the location starts with the basename, the case of letters ignored, and
  goes on with a slash or ends there. Then \<open>matchRoutes\<close> fails exactly when the tree has
  an ill-formed route: an index route with children, or a route whose path starts with
  \<open>/\<close> and does not start with the accumulated path of its parents. The error is the
  fault of the first such route of the traversal, and names it: the path and the path of
  the parents in the one case, the full path of the route in the other. For a
  well-formed tree there is no error.
\<close>

theorem matchRoutes_fatal:
  "(stripBasename (location_pathname parsePath loc) basename = None \<longrightarrow>
      matchRoutes dec parsePath h routes loc basename = Inr (h, None))
   \<and> (stripBasename (location_pathname parsePath loc) basename \<noteq> None \<longrightarrow>
        (matchRoutes dec parsePath h routes loc basename = Inl e \<longleftrightarrow>
           first_fault [] routes = Some e)
      \<and> (isl (matchRoutes dec parsePath h routes loc basename) \<longleftrightarrow>
           list_ex (ill_formed []) routes))
   \<and> (stripBasename pathname basename \<noteq> None \<longleftrightarrow>
        basename = ''/''
        \<or> (startsWith (toLowerCase pathname) (toLowerCase basename)
            \<and> (length pathname \<le> length basename
                \<or> pathname ! length basename = CHR ''/'')))
   \<and> (first_fault [] routes = Some e \<longrightarrow>
        (\<exists>p r. (p, r) \<in> set (nodes [] routes) \<and> fault p r = Some e))
   \<and> (first_fault [] routes \<noteq> None \<longleftrightarrow> list_ex (ill_formed []) routes)
   \<and> (isl (matchRoutes dec parsePath h routes loc ''/'') \<longleftrightarrow> list_ex (ill_formed []) routes)"
proof (intro conjI impI)
  assume "stripBasename (location_pathname parsePath loc) basename = None"
  then show "matchRoutes dec parsePath h routes loc basename = Inr (h, None)"
    by (simp add: matchRoutes_def)
next
  assume "stripBasename (location_pathname parsePath loc) basename \<noteq> None"
  then show "matchRoutes dec parsePath h routes loc basename = Inl e \<longleftrightarrow>
      first_fault [] routes = Some e"
    using flatten_first_fault(1)[of routes 0 "[]" "[]" "[]" e]
    by (auto simp: matchRoutes_def split: sum.splits prod.splits)
next
  assume "stripBasename (location_pathname parsePath loc) basename \<noteq> None"
  then show "isl (matchRoutes dec parsePath h routes loc basename) \<longleftrightarrow>
      list_ex (ill_formed []) routes"
    using flatten_fails_iff(1)[of routes 0 "[]" "[]" "[]"]
    by (auto simp: matchRoutes_def split: sum.splits)
next
  show "stripBasename pathname basename \<noteq> None \<longleftrightarrow>
        basename = ''/''
        \<or> (startsWith (toLowerCase pathname) (toLowerCase basename)
            \<and> (length pathname \<le> length basename
                \<or> pathname ! length basename = CHR ''/''))"
    by (rule stripBasename_succeeds)
next
  assume f: "first_fault [] routes = Some e"
  then obtain p r where
    "find (\<lambda>(p, r). fault p r \<noteq> None) (nodes [] routes) = Some (p, r)" "fault p r = Some e"
    by (auto simp: first_fault_def split: option.splits)
  then show "\<exists>p r. (p, r) \<in> set (nodes [] routes) \<and> fault p r = Some e"
    using find_in_set by fastforce
next
  show "first_fault [] routes \<noteq> None \<longleftrightarrow> list_ex (ill_formed []) routes"
    by (rule first_fault_ill_formed)
next
  show "isl (matchRoutes dec parsePath h routes loc ''/'') \<longleftrightarrow> list_ex (ill_formed []) routes"
    using flatten_fails_iff(1)[of routes 0 "[]" "[]" "[]"]
    by (auto simp: matchRoutes_def stripBasename_def split: sum.splits)
qed

theorem matchRoutes_fatal_witness:
  "matchRoutes decode_ascii parsePath_unused []
     [RouteObject None (Some [RouteObject None None None (Some ''x'') ()]) (Some True) None ()]
     (ToPath \<lparr>opt_pathname = Some ''/app/home'', opt_search = None, opt_hash = None\<rparr>)
     ''/app'' = Inl (IndexRouteWithChildren ''/'')
   \<and> matchRoutes decode_ascii parsePath_unused []
     [RouteObject None (Some [RouteObject None None None (Some ''/b'') ()]) None (Some ''/a'') ()]
     (ToPath \<lparr>opt_pathname = Some ''/app/home'', opt_search = None, opt_hash = None\<rparr>)
     ''/app'' = Inl (AbsoluteChildPath ''/b'' ''/a'')
   \<and> matchRoutes decode_ascii parsePath_unused []
     [RouteObject None (Some [RouteObject None None None (Some ''/b'') ()]) None (Some ''/a'') ()]
     (ToPath \<lparr>opt_pathname = Some ''/apples'', opt_search = None, opt_hash = None\<rparr>)
     ''/app'' = Inr ([], None)"
proof -
  let ?loc = "ToPath \<lparr>opt_pathname = Some ''/app/home'', opt_search = None, opt_hash = None\<rparr>"
  let ?out = "ToPath \<lparr>opt_pathname = Some ''/apples'', opt_search = None, opt_hash = None\<rparr>"
  let ?r1 = "[RouteObject None (Some [RouteObject None None None (Some ''x'') ()]) (Some True)
                None ()]"
  let ?r2 = "[RouteObject None (Some [RouteObject None None None (Some ''/b'') ()]) None
                (Some ''/a'') ()]"
  have strip: "stripBasename (location_pathname parsePath_unused ?loc) ''/app'' \<noteq> None"
    by (simp add: location_pathname_def to_object_def stripBasename_def startsWith_def
          toLowerCase_def toLowerChar_def Let_def)
  have none: "stripBasename (location_pathname parsePath_unused ?out) ''/app'' = None"
    by (simp add: location_pathname_def to_object_def stripBasename_def startsWith_def
          toLowerCase_def toLowerChar_def Let_def)
  have f1: "first_fault [] ?r1 = Some (IndexRouteWithChildren ''/'')"
    by (simp add: first_fault_def nodes.simps fault_def accumulated_path_def or_default_def
          eval_defs)
  have f2: "first_fault [] ?r2 = Some (AbsoluteChildPath ''/b'' ''/a'')"
    by (simp add: first_fault_def nodes.simps fault_def accumulated_path_def or_default_def
          eval_defs)
  note t1 = matchRoutes_fatal[where parsePath = parsePath_unused and loc = ?loc
      and basename = "''/app''" and dec = decode_ascii and h = "[]" and routes = ?r1
      and e = "IndexRouteWithChildren ''/''",
      THEN conjunct2, THEN conjunct1, THEN mp, OF strip, THEN conjunct1]
  note t2 = matchRoutes_fatal[where parsePath = parsePath_unused and loc = ?loc
      and basename = "''/app''" and dec = decode_ascii and h = "[]" and routes = ?r2
      and e = "AbsoluteChildPath ''/b'' ''/a''",
      THEN conjunct2, THEN conjunct1, THEN mp, OF strip, THEN conjunct1]
  note t3 = matchRoutes_fatal[where parsePath = parsePath_unused and loc = ?out
      and basename = "''/app''" and dec = decode_ascii and h = "[]" and routes = ?r2,
      THEN conjunct1, THEN mp, OF none]
  show ?thesis
    using t1 t2 t3 f1 f2 by simp
qed

section \<open>Matching a branch and a route tree\<close>










lemma set_insert_sorted: "set (insert_sorted cmp x ys) = insert x (set ys)"
  by (induction ys) auto

lemma set_sort_by: "set (sort_by cmp xs) = set xs"
proof -
  have "\<And>acc. set (foldl (\<lambda>acc x. insert_sorted cmp x acc) acc xs) = set acc \<union> set xs"
    by (induction xs) (auto simp: set_insert_sorted)
  then show ?thesis by (simp add: sort_by_def)
qed











section \<open>The pathname and the pathname base of a match\<close>

lemma token_names_word:
  "Inr n \<in> set (tokens s) \<Longrightarrow> n \<noteq> [] \<and> (\<forall>c\<in>set n. is_word c)"
proof (induction s rule: tokens.induct)
  case 1
  then show ?case by simp
next
  case (2 c cs)
  show ?case
  proof (cases "c = CHR '':'' \<and> takeWhile is_word cs \<noteq> []")
    case True
    then show ?thesis using 2(1)[OF True] 2(3) by (auto dest: set_takeWhileD)
  next
    case False
    then show ?thesis using 2(2)[OF False] 2(3) by auto
  qed
qed

lemma piece_names_tokens:
  "n \<in> set (piece_names (map (map_sum id token_match) ts)) \<Longrightarrow> Inr n \<in> set ts"
proof (induction ts)
  case Nil
  then show ?case by simp
next
  case (Cons t ts)
  then show ?case by (cases t) (auto simp: group_def token_match_def)
qed

lemma param_names_not_splat:
  "n \<in> set (piece_names (pieces False paramToken [] s 0)) \<Longrightarrow> n \<noteq> ''*''"
proof
  assume n: "n \<in> set (piece_names (pieces False paramToken [] s 0))" and "n = ''*''"
  from n have "Inr n \<in> set (tokens s)"
    unfolding pieces_paramToken by (rule piece_names_tokens)
  from token_names_word[OF this] \<open>n = ''*''\<close> show False
    by (simp add: is_word_def word_chars_def)
qed

lemma fold_step_no_splat:
  "\<forall>n\<in>set ns. n \<noteq> ''*'' \<Longrightarrow>
   snd (foldl (matchPath_step dec mp r) (memo, base) (zip ns [k..<k + length ns])) = base"
proof (induction ns arbitrary: memo k)
  case Nil
  show ?case by simp
next
  case (Cons n ns)
  have "[k..<k + length (n # ns)] = k # [Suc k..<Suc k + length ns]"
    by (subst upt_rec) simp
  then have z: "zip (n # ns) [k..<k + length (n # ns)] = (n, k) # zip ns [Suc k..<Suc k + length ns]"
    by simp
  show ?case
    unfolding z using Cons.prems Cons.IH[of _ "Suc k"]
    by (simp add: matchPath_step_def)
qed

lemma fold_step_splat:
  assumes "\<forall>n\<in>set ns. n \<noteq> ''*''"
  shows "\<exists>memo'. foldl (matchPath_step dec mp r) (memo, base)
            (zip (ns @ [''*'']) [0..<length (ns @ [''*''])]) =
          (memo'(''*'' \<mapsto> safelyDecodeURIComponent dec (group r (Suc (length ns))) ''*''),
           dropTrailingSlashes
             (slice mp 0 (int (length mp) - int (length (group r (Suc (length ns)))))))"
proof -
  have z: "zip (ns @ [''*'']) [0..<length (ns @ [''*''])] =
             zip ns [0..<length ns] @ [(''*'', length ns)]"
    by simp
  obtain memo1 base1 where
    f: "foldl (matchPath_step dec mp r) (memo, base) (zip ns [0..<length ns]) = (memo1, base1)"
    by (cases "foldl (matchPath_step dec mp r) (memo, base) (zip ns [0..<length ns])")
  show ?thesis
    unfolding z foldl_append f
    by (intro exI[of _ memo1]) (simp add: matchPath_step_def)
qed

lemma slice_take:
  "length w \<le> length s \<Longrightarrow> slice s 0 (int (length s) - int (length w)) = take (length s - length w) s"
  by (simp add: slice_def slice_index_def nat_diff_distrib' min_def)

lemma matchPath_unfold:
  "matchPath dec pattern pathname =
     (case compiled pattern of
        (i, matcher, names) \<Rightarrow>
          (case exec i matcher pathname of
             None \<Rightarrow> None
           | Some (pre, r) \<Rightarrow>
               (case foldl (matchPath_step dec (matched r) r)
                       (Map.empty, dropTrailingSlashes (matched r))
                       (zip names [0..<length names]) of
                  (params, base) \<Rightarrow>
                    Some \<lparr>pm_params = params, pm_pathname = matched r,
                          pm_pathnameBase = base, pm_pattern = pattern_object pattern\<rparr>)))"
  by (simp add: matchPath_def compiled_def pattern_object_def Let_def
        split: prod.splits option.splits PatternArg.splits)


lemma compilePath_splat:
  "endsWith path ''*'' \<Longrightarrow>
   compilePath path cs e =
     (\<not> cs,
      Seq (Seq Bol (seqs (source_parts (path_pieces path) 0)))
        (if path = ''*'' \<or> path = ''/*''
         then Seq (Group (Suc (length (piece_names (path_pieces path)))) (Star Dot)) Eol
         else Seq (Alt (Seq (Atom Slash)
                          (Group (Suc (length (piece_names (path_pieces path)))) (Plus Dot)))
                     (Star Slash)) Eol),
      piece_names (path_pieces path) @ [''*''])"
  by (simp add: compilePath_def path_pieces_def Let_def)

lemma compilePath_no_splat:
  "\<not> endsWith path ''*'' \<Longrightarrow>
   compilePath path cs e =
     (\<not> cs,
      Seq (Seq Bol (seqs (source_parts (path_pieces path) 0)))
        (if e then Seq (Star Slash) Eol else boundary),
      piece_names (path_pieces path))"
  by (simp add: compilePath_def path_pieces_def Let_def)

lemma path_names_not_splat: "\<forall>n\<in>set (piece_names (path_pieces path)). n \<noteq> ''*''"
  unfolding path_pieces_def using param_names_not_splat by blast

lemma splat_group_fresh:
  "Suc (length (piece_names ps)) \<notin> group_ids (Seq Bol (seqs (source_parts ps 0)))"
  using group_ids_source_parts[of ps 0] by auto


text \<open>
  C4. When \<open>matchPath\<close> succeeds, the pathname of the result is the whole text the
  compiled expression matched, and the pathname base is that text after the replacement
  of \<open>(.)\/+$\<close> by its group. When the pattern ends in a splat, the matched text ends
  with the raw text of the splat group (nothing when the group did not take part); the
  pathname base is the matched text without that raw ending, after the same replacement,
  and the parameter \<open>*\<close> is the decoded capture.
\<close>

theorem matchPath_pathnames:
  assumes "matchPath dec pattern pathname = Some m"
  shows "\<exists>i matcher names pre r.
      compiled pattern = (i, matcher, names) \<and> exec i matcher pathname = Some (pre, r)
    \<and> pm_pathname m = matched r
    \<and> (\<not> endsWith (pattern_path (pattern_object pattern)) ''*'' \<longrightarrow>
          pm_pathnameBase m = dropTrailingSlashes (matched r))
    \<and> (endsWith (pattern_path (pattern_object pattern)) ''*'' \<longrightarrow>
          (\<exists>rest. matched r = rest @ group r (length names)
              \<and> pm_pathnameBase m = dropTrailingSlashes rest
              \<and> pm_params m ''*'' =
                  Some (safelyDecodeURIComponent dec (group r (length names)) ''*'')))"
proof -
  define path where "path = pattern_path (pattern_object pattern)"
  define pn where "pn = piece_names (path_pieces path)"
  obtain i matcher names where c: "compiled pattern = (i, matcher, names)"
    by (cases "compiled pattern")
  from assms c obtain pre r params base where
    ex: "exec i matcher pathname = Some (pre, r)" and
    fold: "foldl (matchPath_step dec (matched r) r) (Map.empty, dropTrailingSlashes (matched r))
             (zip names [0..<length names]) = (params, base)" and
    m: "m = \<lparr>pm_params = params, pm_pathname = matched r, pm_pathnameBase = base,
              pm_pattern = pattern_object pattern\<rparr>"
    unfolding matchPath_unfold by (auto split: option.splits prod.splits)
  have pn_ns: "\<forall>n\<in>set pn. n \<noteq> ''*''"
    unfolding pn_def by (rule path_names_not_splat)
  show ?thesis
  proof (cases "endsWith path ''*''")
    case False
    then have names: "names = pn"
      using c unfolding compiled_def path_def[symmetric] pn_def
      by (simp add: compilePath_no_splat)
    have "snd (foldl (matchPath_step dec (matched r) r)
                 (Map.empty, dropTrailingSlashes (matched r)) (zip pn [0..<0 + length pn]))
            = dropTrailingSlashes (matched r)"
      by (rule fold_step_no_splat[OF pn_ns])
    then have "base = dropTrailingSlashes (matched r)"
      using fold names by simp
    then show ?thesis
      using c ex m False unfolding path_def by auto
  next
    case True
    define N where "N = Suc (length pn)"
    define A where "A = Seq Bol (seqs (source_parts (path_pieces path) 0))"
    have names: "names = pn @ [''*'']"
      using c True unfolding compiled_def path_def[symmetric] pn_def
      by (simp add: compilePath_splat)
    have lenN: "length names = N"
      unfolding names N_def by simp
    have matcher: "matcher = Seq A (Seq (Group N (Star Dot)) Eol)
        \<or> matcher = Seq A (Seq (Alt (Seq (Atom Slash) (Group N (Plus Dot))) (Star Slash)) Eol)"
      using c True unfolding compiled_def path_def[symmetric] pn_def N_def A_def
      by (auto simp: compilePath_splat split: if_splits)
    have fresh: "N \<notin> group_ids A"
      unfolding N_def A_def pn_def by (rule splat_group_fresh)
    from ex obtain b0 cs0 where "match_at i matcher b0 cs0 = Some r"
      unfolding exec_def using exec_from_SomeD by blast
    then obtain w cs' where
      mem: "(rev w @ b0, cs', groups r) \<in> set (rx i matcher (b0, cs0, Map.empty))" and
      w: "matched r = w"
      by (rule match_at_SomeD)
    have "\<exists>w1 w2. rev w @ b0 = rev (w1 @ w2) @ b0 \<and> group r N = w2"
      using matcher
    proof
      assume "matcher = Seq A (Seq (Group N (Star Dot)) Eol)"
      with splat_suffix_1[of "rev w @ b0" cs' "groups r" i A N b0 cs0 Map.empty] mem
      show ?thesis by (auto simp: group_def)
    next
      assume "matcher = Seq A (Seq (Alt (Seq (Atom Slash) (Group N (Plus Dot))) (Star Slash)) Eol)"
      with splat_suffix_2[of "rev w @ b0" cs' "groups r" i A N b0 cs0 Map.empty] mem fresh
      show ?thesis by (auto simp: group_def)
    qed
    then obtain w1 where "rev w = rev (w1 @ group r N)"
      by auto
    then have split: "w = w1 @ group r N"
      by (simp only: rev_is_rev_conv)
    from fold_step_splat[OF pn_ns, of dec "matched r" r Map.empty
        "dropTrailingSlashes (matched r)"]
    obtain memo' where
      "foldl (matchPath_step dec (matched r) r) (Map.empty, dropTrailingSlashes (matched r))
         (zip names [0..<length names]) =
       (memo'(''*'' \<mapsto> safelyDecodeURIComponent dec (group r N) ''*''),
        dropTrailingSlashes
          (slice (matched r) 0 (int (length (matched r)) - int (length (group r N)))))"
      unfolding names N_def by blast
    with fold have
      params: "params = memo'(''*'' \<mapsto> safelyDecodeURIComponent dec (group r N) ''*'')" and
      base: "base = dropTrailingSlashes
          (slice (matched r) 0 (int (length (matched r)) - int (length (group r N))))"
      by simp_all
    have "slice (matched r) 0 (int (length (matched r)) - int (length (group r N))) = w1"
      unfolding w using split by (subst slice_take) simp_all
    then have base': "base = dropTrailingSlashes w1"
      using base by simp
    show ?thesis
      using c ex m True w split base' params lenN unfolding path_def
      by (intro exI[of _ i] exI[of _ matcher] exI[of _ names] exI[of _ pre] exI[of _ r]) auto
  qed
qed

theorem matchPath_pathnames_witness:
  "(case matchPath decode_ascii (PatternString ''/files/*'') ''/files/a%20b/c//'' of
      None \<Rightarrow> False
    | Some m \<Rightarrow>
        pm_pathname m = ''/files/a%20b/c//'' \<and> pm_pathnameBase m = ''/files''
        \<and> pm_params m ''*'' = Some ''a b/c//'')"
proof -
  let ?m = "\<lparr>pm_params = [''*'' \<mapsto> ''a b/c//''], pm_pathname = ''/files/a%20b/c//'',
             pm_pathnameBase = ''/files'',
             pm_pattern = \<lparr>pattern_path = ''/files/*'', pattern_caseSensitive = Some False,
                            pattern_end = Some True\<rparr>\<rparr>"
  have ev: "matchPath decode_ascii (PatternString ''/files/*'') ''/files/a%20b/c//'' = Some ?m"
    by (simp add: eval_defs)
  have "\<exists>i matcher names pre r.
      compiled (PatternString ''/files/*'') = (i, matcher, names)
    \<and> exec i matcher ''/files/a%20b/c//'' = Some (pre, r)
    \<and> pm_pathname ?m = matched r"
    using matchPath_pathnames[OF ev] by (elim exE conjE) (intro exI conjI)
  then show ?thesis
    unfolding ev by simp
qed

section \<open>A static path matches itself\<close>

lemma match_at_trailing_optional_splat:
  "match_at False (Seq (Star Slash) (Seq (Opt (Atom (Chr CHR ''*''))) Eol)) b cs =
     (if dropWhile sl cs = [] \<or> dropWhile sl cs = ''*''
      then Some \<lparr>matched = cs, groups = Map.empty\<rparr> else None)"
proof -
  have dis: "\<And>b c cs g. atom_ok False Slash c \<Longrightarrow>
       rx False (Seq (Opt (Atom (Chr CHR ''*''))) Eol) (b, c # cs, g) = []"
    by (simp add: rx.simps Opt_def atom_ok_Slash canonicalize_fixed)
  have tk: "takeWhile sl cs @ dropWhile sl cs = cs"
    by simp
  have tail: "\<And>b' d. rx False (Seq (Opt (Atom (Chr CHR ''*''))) Eol) (b', d, Map.empty) =
      (if d = [] then [(b', [], Map.empty)]
       else if d = ''*'' then [(CHR ''*'' # b', [], Map.empty)]
       else [])"
  proof -
    fix b' d
    show "rx False (Seq (Opt (Atom (Chr CHR ''*''))) Eol) (b', d, Map.empty) =
      (if d = [] then [(b', [], Map.empty)]
       else if d = ''*'' then [(CHR ''*'' # b', [], Map.empty)]
       else [])"
      by (cases d) (simp_all add: rx.simps Opt_def canonicalize_fixed)
  qed
  have r: "rx False (Seq (Star Slash) (Seq (Opt (Atom (Chr CHR ''*''))) Eol)) (b, cs, Map.empty) =
      (if dropWhile sl cs = [] then [(rev (takeWhile sl cs) @ b, [], Map.empty)]
       else if dropWhile sl cs = ''*''
       then [(CHR ''*'' # rev (takeWhile sl cs) @ b, [], Map.empty)]
       else [])"
    apply (subst rx_Star_disjoint[of False Slash, OF dis])
     apply assumption
    apply (simp only: tail atom_ok_Slash_fun)
    done
  show ?thesis
  proof (cases "dropWhile sl cs = []")
    case True
    then have "takeWhile sl cs = cs" using tk by simp
    then show ?thesis unfolding match_at_hd r using True by simp
  next
    case False
    show ?thesis
    proof (cases "dropWhile sl cs = ''*''")
      case True
      then have "takeWhile sl cs @ ''*'' = cs" using tk by simp
      then show ?thesis unfolding match_at_hd r using True
        by (auto simp: rev_append[symmetric] simp del: rev_append)
    next
      case f2: False
      then show ?thesis unfolding match_at_hd r using False by simp
    qed
  qed
qed




lemma strip_slashes_append:
  "s = strip_slashes s @ rev (takeWhile sl (rev s))"
  unfolding strip_slashes_def by (metis rev_append rev_rev_ident takeWhile_dropWhile_id)

lemma strip_slashes_last: "strip_slashes s \<noteq> [] \<Longrightarrow> last (strip_slashes s) \<noteq> CHR ''/''"
  unfolding strip_slashes_def
  by (metis (mono_tags, lifting) hd_dropWhile hd_rev rev_is_Nil_conv rev_rev_ident)

lemma last_not_star:
  "\<not> endsWith s ''*'' \<longleftrightarrow> (s = [] \<or> last s \<noteq> CHR ''*'')"
proof (cases "s = []")
  case True
  then show ?thesis by (simp add: endsWith_def)
next
  case False
  then have "drop (length s - 1) s = [last s]"
    by (metis append_butlast_last_id append_eq_conv_conj length_butlast)
  then show ?thesis using False by (auto simp: endsWith_def Suc_le_eq)
qed

lemma first_suffix_trailing:
  assumes "\<not> endsWith s ''*''"
  shows "first_suffix (\<lambda>cs. dropWhile sl cs = [] \<or> dropWhile sl cs = ''*'') s =
           Some (strip_slashes s, rev (takeWhile sl (rev s)))"
proof -
  let ?P = "\<lambda>cs. dropWhile sl cs = [] \<or> dropWhile sl cs = ''*''"
  let ?p = "strip_slashes s"
  let ?u = "rev (takeWhile sl (rev s))"
  have u: "\<forall>c\<in>set ?u. c = CHR ''/''"
    by (auto dest: set_takeWhileD)
  have Pu: "?P ?u"
    using u by simp
  have no: "\<And>k. k < length ?p \<Longrightarrow> \<not> ?P (drop k ?p @ ?u)"
  proof
    fix k assume k: "k < length ?p" and P: "?P (drop k ?p @ ?u)"
    have ne: "drop k ?p \<noteq> []" using k by simp
    have pne: "?p \<noteq> []" using k by auto
    have l: "last (drop k ?p) \<noteq> CHR ''/''"
      using k strip_slashes_last[OF pne] by (simp add: last_drop)
    then obtain x where x: "x \<in> set (drop k ?p)" "\<not> sl x"
      using ne last_in_set by blast
    then have d: "dropWhile sl (drop k ?p @ ?u) = dropWhile sl (drop k ?p) @ ?u"
      by (rule dropWhile_append1)
    have dne: "dropWhile sl (drop k ?p) \<noteq> []"
      using x by (metis (mono_tags, lifting) dropWhile_eq_Nil_conv)
    have dl: "last (dropWhile sl (drop k ?p)) = last ?p"
      using dne k by (metis last_drop last_appendR takeWhile_dropWhile_id)
    from P d dne have star: "dropWhile sl (drop k ?p) @ ?u = ''*''"
      by (simp del: dropWhile_eq_Nil_conv)
    show False
    proof (cases "?u = []")
      case True
      then have "s = ?p" using strip_slashes_append[of s] by simp
      moreover have "last ?p = CHR ''*''"
        using star True dl by simp
      ultimately show False
        using assms pne by (simp add: last_not_star)
    next
      case False
      then have "length (dropWhile sl (drop k ?p) @ ?u) \<ge> 2"
        using dne by (cases "dropWhile sl (drop k ?p)"; cases ?u) auto
      then show False using star by simp
    qed
  qed
  have "first_suffix ?P (?p @ ?u) = Some (?p, ?u)"
    by (rule first_suffix_SomeI[OF Pu no])
  then show ?thesis
    using strip_slashes_append[of s] by simp
qed

lemma replace_trailing:
  assumes "\<not> endsWith s ''*''"
  shows "replace False (Seq (Star Slash) (Seq (Opt (Atom (Chr CHR ''*''))) Eol)) (\<lambda>_. []) s
           = strip_slashes s"
  by (subst replace_first_suffix[where P = "\<lambda>cs. dropWhile sl cs = [] \<or> dropWhile sl cs = ''*''"
          and M = "\<lambda>cs. \<lparr>matched = cs, groups = Map.empty\<rparr>"])
     (simp_all add: match_at_trailing_optional_splat first_suffix_trailing[OF assms]
        del: dropWhile_eq_Nil_conv)

lemma single_root_lead:
  assumes "single_root s"
  shows "\<exists>k. s = (CHR ''/'' # dropWhile sl (strip_slashes s)) @ replicate k CHR ''/''"
proof -
  from assms obtain rest where s: "s = CHR ''/'' # rest"
    and r: "list_all sl rest \<or> (rest \<noteq> [] \<and> hd rest \<noteq> CHR ''/'')"
    by (auto simp: single_root_def split: list.splits)
  have "replicate (length (rev (takeWhile sl (rev s)))) CHR ''/'' = rev (takeWhile sl (rev s))"
    by (rule replicate_length_same) (auto dest: set_takeWhileD)
  then have tail: "rev (takeWhile sl (rev s)) = replicate (length (takeWhile sl (rev s))) CHR ''/''"
    by simp
  show ?thesis
  proof (cases "list_all sl rest")
    case True
    then have all: "\<forall>c\<in>set (rev s). sl c"
      using s by (auto simp: list_all_iff)
    then have "strip_slashes s = []"
      unfolding strip_slashes_def by simp
    moreover have "replicate (length rest) CHR ''/'' = rest"
      using True by (intro replicate_length_same) (auto simp: list_all_iff)
    ultimately show ?thesis
      using s by (intro exI[of _ "length rest"]) simp
  next
    case False
    with r have r2: "rest \<noteq> []" "hd rest \<noteq> CHR ''/''" by auto
    from False obtain x where x: "x \<in> set rest" "x \<noteq> CHR ''/''"
      by (auto simp: list_all_iff)
    have "dropWhile sl (rev rest @ ''/'') = dropWhile sl (rev rest) @ ''/''"
      using x by (intro dropWhile_append1[of x]) auto
    then have st: "strip_slashes s = CHR ''/'' # strip_slashes rest"
      unfolding strip_slashes_def s by simp
    have sne: "strip_slashes rest \<noteq> []"
      unfolding strip_slashes_def using x by (auto simp: dropWhile_eq_Nil_conv)
    have "hd (strip_slashes rest) = hd rest"
      using strip_slashes_append[of rest] sne by (metis hd_append2)
    then have "dropWhile sl (strip_slashes s) = strip_slashes rest"
      unfolding st using r2 sne by (cases "strip_slashes rest") auto
    then have "CHR ''/'' # dropWhile sl (strip_slashes s) = strip_slashes s"
      using st by simp
    then show ?thesis
      using strip_slashes_append[of s] tail
      by (intro exI[of _ "length (takeWhile sl (rev s))"]) simp
  qed
qed


lemma tokens_no_params: "list_all isl (tokens s) \<Longrightarrow> tokens s = map Inl s"
proof (induction s rule: tokens.induct)
  case 1
  show ?case by simp
next
  case (2 c cs)
  show ?case
  proof (cases "c = CHR '':'' \<and> takeWhile is_word cs \<noteq> []")
    case True
    then show ?thesis using 2(3) by simp
  next
    case False
    then show ?thesis using 2(2)[OF False] 2(3) by auto
  qed
qed

lemma tokens_prefix_no_params:
  "list_all isl (tokens (a @ b)) \<Longrightarrow> list_all isl (tokens a)"
proof (induction a rule: tokens.induct)
  case 1
  show ?case by simp
next
  case (2 c cs)
  have nb: "\<not> (c = CHR '':'' \<and> takeWhile is_word (cs @ b) \<noteq> [])"
    using 2(3) by (auto split: if_splits)
  have na: "\<not> (c = CHR '':'' \<and> takeWhile is_word cs \<noteq> [])"
  proof
    assume a: "c = CHR '':'' \<and> takeWhile is_word cs \<noteq> []"
    then have "cs \<noteq> [] \<and> is_word (hd cs)"
      by (cases cs) (auto split: if_splits)
    then have "takeWhile is_word (cs @ b) \<noteq> []"
      by (cases cs) auto
    with a nb show False by simp
  qed
  have "list_all isl (tokens (cs @ b))"
    using 2(3) nb by (auto split: if_splits)
  then show ?case using 2(2)[OF na] na by auto
qed

lemma source_parts_literals:
  "source_parts (map Inl w) n = map (\<lambda>c. Atom (Chr c)) w"
  by (induction w) simp_all

lemma piece_names_literals: "piece_names (map Inl w) = []"
  by (induction w) simp_all

lemma atom_ok_Chr_refl: "atom_ok i (Chr c) c"
  by simp

lemma rx_literals:
  "rx i (Seq (seqs (map (\<lambda>c. Atom (Chr c)) w)) T) (b, w @ cs, g) = rx i T (rev w @ b, cs, g)"
proof (induction w arbitrary: b)
  case Nil
  show ?case by (simp add: seqs_def rx.simps)
next
  case (Cons c w)
  have "rx i (Seq (seqs (map (\<lambda>c. Atom (Chr c)) (c # w))) T) (b, (c # w) @ cs, g) =
        rx i (Seq (Atom (Chr c)) (Seq (seqs (map (\<lambda>c. Atom (Chr c)) w)) T)) (b, c # w @ cs, g)"
    by (simp add: seqs_def rx_Seq_assoc)
  also have "\<dots> = rx i (Seq (seqs (map (\<lambda>c. Atom (Chr c)) w)) T) (c # b, w @ cs, g)"
    by (simp add: rx_Seq_Atom)
  also have "\<dots> = rx i T (rev w @ c # b, cs, g)"
    by (rule Cons)
  finally show ?case by simp
qed

lemma match_at_cong:
  "(\<And>s. rx i r s = rx i r' s) \<Longrightarrow> match_at i r b cs = match_at i r' b cs"
  by (simp add: match_at_def)

lemma exec_cong:
  assumes "\<And>s. rx i r s = rx i r' s"
  shows "exec i r s = exec i r' s"
proof -
  have "exec_from i r b s = exec_from i r' b s" for b
  proof (induction s arbitrary: b)
    case Nil
    show ?case by (simp add: match_at_cong[of i r r', OF assms])
  next
    case (Cons c s)
    show ?case by (simp add: match_at_cong[of i r r', OF assms] Cons cong: option.case_cong)
  qed
  then show ?thesis by (simp add: exec_def)
qed

lemma tokens_suffix_no_params:
  "list_all isl (tokens (a @ b)) \<Longrightarrow> list_all isl (tokens b)"
  by (induction a) (auto split: if_splits)

lemma path_pieces_static:
  assumes "list_all isl (tokens path)" "\<not> endsWith path ''*''"
  shows "path_pieces path = map Inl (CHR ''/'' # dropWhile sl (strip_slashes path))"
proof -
  have "list_all isl (tokens (strip_slashes path))"
    using assms(1) strip_slashes_append[of path]
      tokens_prefix_no_params[of "strip_slashes path" "rev (takeWhile sl (rev path))"]
    by simp
  then have "list_all isl (tokens (dropWhile sl (strip_slashes path)))"
    using tokens_suffix_no_params[of "takeWhile sl (strip_slashes path)"
        "dropWhile sl (strip_slashes path)"]
    by simp
  then have "list_all isl (tokens (CHR ''/'' # dropWhile sl (strip_slashes path)))"
    by simp
  then have "tokens (CHR ''/'' # dropWhile sl (strip_slashes path)) =
               map Inl (CHR ''/'' # dropWhile sl (strip_slashes path))"
    by (rule tokens_no_params)
  then show ?thesis
    unfolding path_pieces_def replace_trailing[OF assms(2)] replace_leading_slashes
      pieces_paramToken
    by (simp add: comp_def)
qed

lemma compiled_static:
  assumes "list_all isl (tokens path)" "\<not> endsWith path ''*''"
  shows "compiled (PatternString path) =
           (True,
            Seq (Seq Bol (seqs (map (\<lambda>c. Atom (Chr c))
                                  (CHR ''/'' # dropWhile sl (strip_slashes path)))))
              (Seq (Star Slash) Eol),
            [])"
  unfolding compiled_def pattern_object_def
  by (simp add: compilePath_no_splat[OF assms(2)] path_pieces_static[OF assms]
        source_parts_literals piece_names_literals or_default_def)

lemma rx_literals_prefix:
  "rx i (Seq (seqs (map (\<lambda>c. Atom (Chr c)) w)) T) (b, cs, g) \<noteq> [] \<Longrightarrow>
     length w \<le> length cs
     \<and> list_all2 (\<lambda>a c. canonicalize i a = canonicalize i c) w (take (length w) cs)"
proof (induction w arbitrary: b cs)
  case Nil
  show ?case by simp
next
  case (Cons a w)
  have e: "rx i (Seq (seqs (map (\<lambda>c. Atom (Chr c)) (a # w))) T) (b, cs, g) =
        rx i (Seq (Atom (Chr a)) (Seq (seqs (map (\<lambda>c. Atom (Chr c)) w)) T)) (b, cs, g)"
    by (simp add: seqs_def rx_Seq_assoc)
  from Cons(2) obtain c cs' where cs: "cs = c # cs'" and ok: "atom_ok i (Chr a) c"
    and r: "rx i (Seq (seqs (map (\<lambda>c. Atom (Chr c)) w)) T) (c # b, cs', g) \<noteq> []"
    unfolding e rx_Seq_Atom by (auto split: list.splits if_splits)
  from Cons(1)[OF r] ok show ?case
    unfolding cs by simp
qed

lemma exec_static:
  "exec True (Seq (Seq Bol X) T) path =
     (case match_at True (Seq X T) [] path of None \<Rightarrow> None | Some m \<Rightarrow> Some ([], m))"
proof -
  have "exec True (Seq (Seq Bol X) T) path = exec True (Seq Bol (Seq X T)) path"
    by (rule exec_cong) (rule rx_Seq_assoc)
  then show ?thesis
    by (simp only: exec_Bol)
qed

lemma match_static_ok:
  assumes "single_root path"
  shows "match_at True
           (Seq (seqs (map (\<lambda>c. Atom (Chr c)) (CHR ''/'' # dropWhile sl (strip_slashes path))))
              (Seq (Star Slash) Eol)) [] path =
         Some \<lparr>matched = path, groups = Map.empty\<rparr>"
proof -
  define lead where "lead = CHR ''/'' # dropWhile sl (strip_slashes path)"
  from single_root_lead[OF assms] obtain k where
    path: "path = lead @ replicate k CHR ''/''"
    unfolding lead_def by blast
  have "rx True (Seq (seqs (map (\<lambda>c. Atom (Chr c)) lead)) (Seq (Star Slash) Eol))
          ([], lead @ replicate k CHR ''/'', Map.empty) =
        rx True (Seq (Star Slash) Eol) (rev lead @ [], replicate k CHR ''/'', Map.empty)"
    by (rule rx_literals)
  also have "\<dots> = [(rev (replicate k CHR ''/'') @ rev lead, [], Map.empty)]"
    by (simp add: rx_Star_Eol atom_ok_Slash_fun list_all_iff)
  finally have "match_at True (Seq (seqs (map (\<lambda>c. Atom (Chr c)) lead)) (Seq (Star Slash) Eol))
                  [] (lead @ replicate k CHR ''/'') =
                Some \<lparr>matched = lead @ replicate k CHR ''/'', groups = Map.empty\<rparr>"
    unfolding match_at_hd by (simp add: rev_append[symmetric] del: rev_append rev_replicate)
  then show ?thesis
    unfolding lead_def[symmetric] using path by simp
qed

lemma slash_canonical: "canonicalize i CHR ''/'' = canonicalize i c \<longleftrightarrow> c = CHR ''/''"
  by (rule canonicalize_fixed) simp

lemma match_static_fail:
  assumes "\<not> single_root path"
  shows "match_at True
           (Seq (seqs (map (\<lambda>c. Atom (Chr c)) (CHR ''/'' # dropWhile sl (strip_slashes path))))
              (Seq (Star Slash) Eol)) [] path = None"
proof (rule ccontr)
  define x where "x = dropWhile sl (strip_slashes path)"
  assume "match_at True
           (Seq (seqs (map (\<lambda>c. Atom (Chr c)) (CHR ''/'' # dropWhile sl (strip_slashes path))))
              (Seq (Star Slash) Eol)) [] path \<noteq> None"
  then have "rx True (Seq (seqs (map (\<lambda>c. Atom (Chr c)) (CHR ''/'' # x))) (Seq (Star Slash) Eol))
               ([], path, Map.empty) \<noteq> []"
    unfolding match_at_hd x_def by (simp split: if_splits)
  from rx_literals_prefix[OF this] have
    len: "Suc (length x) \<le> length path" and
    all: "list_all2 (\<lambda>a c. canonicalize True a = canonicalize True c) (CHR ''/'' # x)
            (take (Suc (length x)) path)"
    by simp_all
  from len obtain c rest where p: "path = c # rest"
    by (cases path) auto
  from all have c: "c = CHR ''/''" and
    tl: "list_all2 (\<lambda>a c. canonicalize True a = canonicalize True c) x (take (length x) rest)"
    unfolding p by (simp_all add: slash_canonical)
  have "list_all sl rest \<or> (rest \<noteq> [] \<and> hd rest \<noteq> CHR ''/'')"
  proof (cases x)
    case Nil
    then have "list_all sl (strip_slashes path)"
      unfolding x_def by (simp add: list_all_iff)
    moreover have "list_all sl (rev (takeWhile sl (rev path)))"
      by (simp add: list_all_iff) (meson set_takeWhileD)
    ultimately have "list_all sl path"
      using strip_slashes_append[of path] by (metis list_all_append)
    then show ?thesis using p by simp
  next
    case (Cons d x')
    then have d: "d \<noteq> CHR ''/''"
      using hd_dropWhile[of sl "strip_slashes path"] unfolding x_def by force
    from tl Cons obtain e rest' where r: "rest = e # rest'"
      and "canonicalize True d = canonicalize True e"
      by (cases rest) auto
    then have "e \<noteq> CHR ''/''"
      using d slash_canonical[of True d] by auto
    then show ?thesis using r by simp
  qed
  then have "single_root path"
    using p c by (simp add: single_root_def)
  with assms show False by simp
qed

lemma matchPath_static:
  assumes "list_all isl (tokens path)" "\<not> endsWith path ''*''"
  shows "matchPath dec (PatternString path) path =
           (if single_root path
            then Some \<lparr>pm_params = Map.empty, pm_pathname = path,
                        pm_pathnameBase = dropTrailingSlashes path,
                        pm_pattern = \<lparr>pattern_path = path, pattern_caseSensitive = Some False,
                                       pattern_end = Some True\<rparr>\<rparr>
            else None)"
proof -
  let ?matcher = "Seq (Seq Bol (seqs (map (\<lambda>c. Atom (Chr c))
                                  (CHR ''/'' # dropWhile sl (strip_slashes path)))))
              (Seq (Star Slash) Eol)"
  have ex: "exec True ?matcher path =
              (if single_root path then Some ([], \<lparr>matched = path, groups = Map.empty\<rparr>)
               else None)"
  proof (cases "single_root path")
    case True
    show ?thesis
      unfolding exec_static match_static_ok[OF True] using True by simp
  next
    case False
    show ?thesis
      unfolding exec_static match_static_fail[OF False] using False by simp
  qed
  show ?thesis
    unfolding matchPath_unfold compiled_static[OF assms] prod.case ex
    by (simp add: pattern_object_def)
qed

lemma token_text_simps:
  "token_text (Inl c) = [c]" "token_text (Inr k) = CHR '':'' # k"
  by (simp_all add: token_text_def)

lemma rx_Seq_Nil: "rx i r1 s = [] \<Longrightarrow> rx i (Seq r1 r2) s = []"
  by (simp add: rx.simps)

lemma tokens_concat: "concat (map token_text (tokens s)) = s"
proof (induction s rule: tokens.induct)
  case 1
  show ?case by simp
next
  case (2 c cs)
  show ?case
  proof (cases "c = CHR '':'' \<and> takeWhile is_word cs \<noteq> []")
    case True
    then show ?thesis using 2(1)[OF True] by (simp add: token_text_simps)
  next
    case False
    then show ?thesis using 2(2)[OF False] by (auto simp: token_text_simps)
  qed
qed

lemma is_word_not_slash: "is_word c \<Longrightarrow> c \<noteq> CHR ''/''"
  by (auto simp: is_word_def word_chars_def)

lemma slash_canonical2: "canonicalize i c = canonicalize i CHR ''/'' \<longleftrightarrow> c = CHR ''/''"
  using slash_canonical[of i c] by auto

lemma atom_ok_not_slash: "atom_ok i (NoneOf ''/'') c \<longleftrightarrow> c \<noteq> CHR ''/''"
  using slash_canonical[of i c] by auto

lemma star_run_self: "(b, cs) \<in> set (star_run i a b cs)"
  by (cases cs) simp_all

lemma star_run_mem:
  "list_all (atom_ok i a) w \<Longrightarrow> (rev w @ b, cs) \<in> set (star_run i a b (w @ cs))"
proof (induction w arbitrary: b)
  case Nil
  show ?case by (simp add: star_run_self)
next
  case (Cons c w)
  then have "(rev w @ c # b, cs) \<in> set (star_run i a (c # b) (w @ cs))"
    by simp
  then show ?case using Cons.prems by simp
qed

lemma rx_group_plus_mem:
  assumes "w \<noteq> []" "list_all (atom_ok i a) w"
  shows "(rev w @ b, cs, g(n \<mapsto> w)) \<in> set (rx i (Group n (Plus a)) (b, w @ cs, g))"
proof -
  from assms obtain c w' where w: "w = c # w'" by (cases w) auto
  have "(rev w' @ c # b, cs) \<in> set (star_run i a (c # b) (w' @ cs))"
    using assms(2) w star_run_mem[of i a w' "c # b" cs] by simp
  then have "(rev w @ b, cs, g) \<in> set (rx i (Plus a) (b, w @ cs, g))"
    using assms(2) w by (auto simp: Plus_def rx.simps)
  then show ?thesis
    by (force simp: rx.simps)
qed

lemma rx_Seq_nonempty:
  "u \<in> set (rx i r1 s) \<Longrightarrow> rx i r2 u \<noteq> [] \<Longrightarrow> rx i (Seq r1 r2) s \<noteq> []"
  by (auto simp: rx.simps)

lemma seqs_Cons: "rx i (Seq (seqs (r # rs)) T) s = rx i (Seq r (Seq (seqs rs) T)) s"
  by (simp add: seqs_def rx_Seq_assoc)

lemma seqs_Nil: "rx i (Seq (seqs []) T) s = rx i T s"
  by (simp add: seqs_def rx.simps)

lemma rx_tokens_accepts:
  assumes "\<And>k. Inr k \<in> set ts \<Longrightarrow> k \<noteq> [] \<and> (\<forall>c\<in>set k. is_word c)"
    and "\<And>g'. rx i T (rev (concat (map token_text ts)) @ b, cs, g') \<noteq> []"
  shows "rx i (Seq (seqs (source_parts (map (map_sum id token_match) ts) n)) T)
           (b, concat (map token_text ts) @ cs, g) \<noteq> []"
  using assms
proof (induction ts arbitrary: b g n)
  case Nil
  then show ?case by (simp add: seqs_Nil)
next
  case (Cons t ts)
  have names: "k \<noteq> [] \<and> (\<forall>c\<in>set k. is_word c)" if "Inr k \<in> set ts" for k
    using Cons.prems(1)[of k] that by simp
  show ?case
  proof (cases t)
    case (Inl c)
    have p2: "rx i T (rev (concat (map token_text ts)) @ c # b, cs, g') \<noteq> []" for g'
      using Cons.prems(2)[of g'] Inl by (simp add: token_text_simps)
    have ih: "rx i (Seq (seqs (source_parts (map (map_sum id token_match) ts) n)) T)
            (c # b, concat (map token_text ts) @ cs, g) \<noteq> []"
      by (rule Cons.IH[OF names p2])
    have eq: "rx i (Seq (seqs (source_parts (map (map_sum id token_match) (t # ts)) n)) T)
            (b, concat (map token_text (t # ts)) @ cs, g) =
          rx i (Seq (seqs (source_parts (map (map_sum id token_match) ts) n)) T)
            (c # b, concat (map token_text ts) @ cs, g)"
      using Inl by (simp add: seqs_Cons rx_Seq_Atom token_text_simps)
    show ?thesis by (subst eq) (rule ih)
  next
    case (Inr k)
    let ?w = "CHR '':'' # k"
    have kw: "\<forall>c\<in>set k. is_word c"
      using Cons.prems(1)[of k] Inr by simp
    have "c \<noteq> CHR ''/''" if "c \<in> set ?w" for c
    proof (cases "c = CHR '':''")
      case True
      then show ?thesis by simp
    next
      case False
      with that have "c \<in> set k" by simp
      with kw have "is_word c" by simp
      then show ?thesis by (rule is_word_not_slash)
    qed
    then have ok: "list_all (atom_ok i (NoneOf ''/'')) ?w"
      unfolding list_all_iff atom_ok_not_slash by blast
    have mem: "(rev ?w @ b, concat (map token_text ts) @ cs, g(Suc n \<mapsto> ?w))
                 \<in> set (rx i (Group (Suc n) (Plus (NoneOf ''/'')))
                          (b, ?w @ concat (map token_text ts) @ cs, g))"
      by (rule rx_group_plus_mem[OF _ ok]) simp
    have p2: "rx i T (rev (concat (map token_text ts)) @ rev ?w @ b, cs, g') \<noteq> []" for g'
      using Cons.prems(2)[of g'] Inr by (simp add: token_text_simps)
    have rest: "rx i (Seq (seqs (source_parts (map (map_sum id token_match) ts) (Suc n))) T)
            (rev ?w @ b, concat (map token_text ts) @ cs, g(Suc n \<mapsto> ?w)) \<noteq> []"
      by (rule Cons.IH[OF names p2])
    have eq: "rx i (Seq (seqs (source_parts (map (map_sum id token_match) (t # ts)) n)) T)
            (b, concat (map token_text (t # ts)) @ cs, g) =
          rx i (Seq (Group (Suc n) (Plus (NoneOf ''/'')))
                  (Seq (seqs (source_parts (map (map_sum id token_match) ts) (Suc n))) T))
            (b, ?w @ concat (map token_text ts) @ cs, g)"
      using Inr by (simp add: seqs_Cons token_text_simps)
    show ?thesis by (subst eq) (rule rx_Seq_nonempty[OF mem rest])
  qed
qed

lemma rx_to_the_end:
  assumes "(b', cs', g') \<in> set (rx i (Seq X (Seq (Star Slash) Eol)) (b, cs, g))"
  shows "b' = rev cs @ b"
proof -
  from assms obtain u where "u \<in> set (rx i X (b, cs, g))"
    and t: "(b', cs', g') \<in> set (rx i (Seq (Star Slash) Eol) u)"
    by (rule in_rx_SeqD)
  from t obtain v where "v \<in> set (rx i (Star Slash) u)"
    and e: "(b', cs', g') \<in> set (rx i Eol v)"
    by (rule in_rx_SeqD)
  from in_rx_EolD[OF e] have "cs' = []" by auto
  with rx_consumes[OF assms] show ?thesis by auto
qed

lemma path_pieces_tokens:
  assumes "\<not> endsWith path ''*''"
  shows "path_pieces path =
           map (map_sum id token_match) (tokens (CHR ''/'' # dropWhile sl (strip_slashes path)))"
  unfolding path_pieces_def replace_trailing[OF assms] replace_leading_slashes
    pieces_paramToken
  by simp

lemma match_rooted_ok:
  assumes "single_root path"
  shows "\<exists>r. match_at True
           (Seq (seqs (source_parts
                         (map (map_sum id token_match)
                            (tokens (CHR ''/'' # dropWhile sl (strip_slashes path)))) 0))
              (Seq (Star Slash) Eol)) [] path = Some r \<and> matched r = path"
proof -
  define lead where "lead = CHR ''/'' # dropWhile sl (strip_slashes path)"
  let ?re = "Seq (seqs (source_parts (map (map_sum id token_match) (tokens lead)) 0))
               (Seq (Star Slash) Eol)"
  from single_root_lead[OF assms] obtain k where
    path: "path = lead @ replicate k CHR ''/''"
    unfolding lead_def by blast
  have n: "\<And>k. Inr k \<in> set (tokens lead) \<Longrightarrow> k \<noteq> [] \<and> (\<forall>c\<in>set k. is_word c)"
    by (rule token_names_word)
  have e: "\<And>g'. rx True (Seq (Star Slash) Eol)
              (rev (concat (map token_text (tokens lead))) @ [], replicate k CHR ''/'', g')
            \<noteq> []"
    by (simp add: rx_Star_Eol atom_ok_Slash_fun list_all_iff)
  have "rx True ?re ([], concat (map token_text (tokens lead)) @ replicate k CHR ''/'', Map.empty)
          \<noteq> []"
    by (rule rx_tokens_accepts[OF n e])
  then have ne: "rx True ?re ([], path, Map.empty) \<noteq> []"
    unfolding tokens_concat path[symmetric] .
  then obtain b' cs' g' rest where
    hd: "rx True ?re ([], path, Map.empty) = (b', cs', g') # rest"
    by (cases "rx True ?re ([], path, Map.empty)") auto
  then have "(b', cs', g') \<in> set (rx True ?re ([], path, Map.empty))"
    by simp
  from rx_to_the_end[OF this] have "b' = rev path" by simp
  then show ?thesis
    unfolding lead_def[symmetric] match_at_def hd by simp
qed

lemma tokens_first:
  "\<exists>t ts. tokens (d # x) = t # ts \<and> (t = Inl d \<or> (d = CHR '':'' \<and> (\<exists>k. t = Inr k)))"
  by simp

lemma match_rooted_fail:
  assumes "\<not> single_root path"
  shows "match_at True
           (Seq (seqs (source_parts
                         (map (map_sum id token_match)
                            (tokens (CHR ''/'' # dropWhile sl (strip_slashes path)))) 0))
              (Seq (Star Slash) Eol)) [] path = None"
proof -
  define x where "x = dropWhile sl (strip_slashes path)"
  let ?T = "Seq (Star Slash) Eol"
  let ?tail = "seqs (source_parts (map (map_sum id token_match) (tokens x)) 0)"
  have first: "tokens (CHR ''/'' # x) = Inl CHR ''/'' # tokens x"
    by simp
  have step: "rx True (Seq (seqs (source_parts (map (map_sum id token_match)
                 (tokens (CHR ''/'' # x))) 0)) ?T) ([], path, Map.empty) =
        (case path of [] \<Rightarrow> []
         | c # rest \<Rightarrow> if c = CHR ''/'' then rx True (Seq ?tail ?T) ([c], rest, Map.empty)
                       else [])"
    unfolding first
    by (simp add: seqs_Cons rx_Seq_Atom slash_canonical slash_canonical2 split: list.splits)
  have "rx True (Seq (seqs (source_parts (map (map_sum id token_match)
                 (tokens (CHR ''/'' # x))) 0)) ?T) ([], path, Map.empty) = []"
  proof (cases path)
    case Nil
    then show ?thesis by (subst step) simp
  next
    case (Cons c rest)
    show ?thesis
    proof (cases "c = CHR ''/''")
      case False
      then show ?thesis by (subst step) (simp add: Cons)
    next
      case True
      from assms Cons True have nr: "\<not> list_all sl rest" and
        r: "rest = [] \<or> hd rest = CHR ''/''"
        by (auto simp: single_root_def)
      from nr r obtain rest' where rest: "rest = CHR ''/'' # rest'"
        by (cases rest) auto
      have "x \<noteq> []"
      proof
        assume "x = []"
        then have "list_all sl (strip_slashes path)"
          unfolding x_def by (simp add: list_all_iff)
        moreover have "list_all sl (rev (takeWhile sl (rev path)))"
          by (simp add: list_all_iff) (meson set_takeWhileD)
        ultimately have "list_all sl path"
          using strip_slashes_append[of path] by (metis list_all_append)
        with nr Cons show False by simp
      qed
      then obtain d x' where x: "x = d # x'" by (cases x) auto
      then have d: "d \<noteq> CHR ''/''"
        using hd_dropWhile[of sl "strip_slashes path"] unfolding x_def by force
      from tokens_first[of d x'] obtain t ts where
        t: "tokens (d # x') = t # ts" "t = Inl d \<or> (\<exists>k. t = Inr k)"
        by blast
      have "rx True (Seq ?tail ?T) ([c], CHR ''/'' # rest', Map.empty) = []"
      proof (cases t)
        case (Inl e)
        then have "e = d" using t(2) by auto
        have "rx True (Seq (seqs (source_parts (map (map_sum id token_match) (t # ts)) 0)) ?T)
                 ([c], CHR ''/'' # rest', Map.empty) =
               rx True (Seq (Atom (Chr d))
                     (Seq (seqs (source_parts (map (map_sum id token_match) ts) 0)) ?T))
                 ([c], CHR ''/'' # rest', Map.empty)"
          using Inl \<open>e = d\<close> by (simp add: seqs_Cons)
        also have "\<dots> = []"
          using d by (simp add: rx_Seq_Atom slash_canonical2)
        finally show ?thesis
          unfolding x t(1) .
      next
        case (Inr k)
        have "rx True (Group (Suc 0) (Plus (NoneOf ''/''))) ([c], CHR ''/'' # rest', Map.empty) = []"
          by (simp add: rx.simps Plus_def slash_canonical)
        then have nil: "rx True (Seq (Group (Suc 0) (Plus (NoneOf ''/'')))
                     (Seq (seqs (source_parts (map (map_sum id token_match) ts) (Suc 0))) ?T))
                 ([c], CHR ''/'' # rest', Map.empty) = []"
          by (rule rx_Seq_Nil)
        have eq: "rx True (Seq (seqs (source_parts (map (map_sum id token_match) (t # ts)) 0)) ?T)
                 ([c], CHR ''/'' # rest', Map.empty) =
               rx True (Seq (Group (Suc 0) (Plus (NoneOf ''/'')))
                     (Seq (seqs (source_parts (map (map_sum id token_match) ts) (Suc 0))) ?T))
                 ([c], CHR ''/'' # rest', Map.empty)"
          using Inr by (simp add: seqs_Cons)
        show ?thesis
          unfolding x t(1) by (subst eq) (rule nil)
      qed
      then show ?thesis
        using True by (subst step) (simp add: Cons rest)
    qed
  qed
  then show ?thesis
    unfolding x_def match_at_def by simp
qed

text \<open>
  C9, as the specification has it: every path without \<open>:name\<close> tokens and without a
  splat matches itself. It does not: the compiled expression always starts with a slash,
  so the path \<open>a\<close> does not match the pattern \<open>a\<close>.
\<close>

theorem matchPath_round_trip_counterexample:
  "list_all isl (tokens ''a'') \<and> \<not> endsWith ''a'' ''*''
   \<and> matchPath decode_ascii (PatternString ''a'') ''a'' = None"
  by (simp add: eval_defs)

text \<open>
  C9, amended. For a path that does not end in a star, \<open>matchPath\<close> of the path against
  itself succeeds exactly when the path stands under one root slash: it starts with a
  slash and then either has slashes only or goes on with another character. The pathname
  of the result is then the path itself, trailing slashes included. This holds with and
  without \<open>:name\<close> tokens in the path. When the path has no such token, a colon with a
  word character behind it, the result has no parameters, and its pathname base is the
  path after the replacement of \<open>(.)\/+$\<close> by its group.
\<close>

theorem matchPath_round_trip:
  assumes "\<not> endsWith path ''*''"
  shows "(single_root path \<longrightarrow>
            (\<exists>m. matchPath dec (PatternString path) path = Some m \<and> pm_pathname m = path))
       \<and> (\<not> single_root path \<longrightarrow> matchPath dec (PatternString path) path = None)
       \<and> (single_root path \<and> list_all isl (tokens path) \<longrightarrow>
            matchPath dec (PatternString path) path =
              Some \<lparr>pm_params = Map.empty, pm_pathname = path,
                     pm_pathnameBase = dropTrailingSlashes path,
                     pm_pattern = \<lparr>pattern_path = path, pattern_caseSensitive = Some False,
                                    pattern_end = Some True\<rparr>\<rparr>)"
proof -
  let ?X = "seqs (source_parts (map (map_sum id token_match)
                    (tokens (CHR ''/'' # dropWhile sl (strip_slashes path)))) 0)"
  let ?T = "Seq (Star Slash) Eol"
  let ?names = "piece_names (map (map_sum id token_match)
                    (tokens (CHR ''/'' # dropWhile sl (strip_slashes path))))"
  have c: "compiled (PatternString path) = (True, Seq (Seq Bol ?X) ?T, ?names)"
    unfolding compiled_def pattern_object_def
    by (simp add: compilePath_no_splat[OF assms] path_pieces_tokens[OF assms] or_default_def)
  have ok: "\<exists>m. matchPath dec (PatternString path) path = Some m \<and> pm_pathname m = path"
    if "single_root path"
  proof -
    from match_rooted_ok[OF that] obtain r where
      r: "match_at True (Seq ?X ?T) [] path = Some r" "matched r = path"
      by blast
    have ex: "exec True (Seq (Seq Bol ?X) ?T) path = Some ([], r)"
      unfolding exec_static r(1) by simp
    show ?thesis
      unfolding matchPath_unfold c prod.case ex option.case using r(2)
      by (simp split: prod.splits)
  qed
  have fail: "matchPath dec (PatternString path) path = None" if "\<not> single_root path"
  proof -
    have ex: "exec True (Seq (Seq Bol ?X) ?T) path = None"
      unfolding exec_static match_rooted_fail[OF that] by simp
    show ?thesis
      unfolding matchPath_unfold c prod.case ex by simp
  qed
  have static: "matchPath dec (PatternString path) path =
              Some \<lparr>pm_params = Map.empty, pm_pathname = path,
                     pm_pathnameBase = dropTrailingSlashes path,
                     pm_pattern = \<lparr>pattern_path = path, pattern_caseSensitive = Some False,
                                    pattern_end = Some True\<rparr>\<rparr>"
    if "single_root path \<and> list_all isl (tokens path)"
    using matchPath_static[of path dec] that assms by simp
  show ?thesis
    using ok fail static by blast
qed

theorem matchPath_round_trip_witness:
  "\<not> endsWith ''/a:b//'' ''*'' \<and> single_root ''/a:b//''
   \<and> (\<exists>m. matchPath decode_ascii (PatternString ''/a:b//'') ''/a:b//'' = Some m
          \<and> pm_pathname m = ''/a:b//'')
   \<and> matchPath decode_ascii (PatternString ''/a/b//'') ''/a/b//'' =
       Some \<lparr>pm_params = Map.empty, pm_pathname = ''/a/b//'', pm_pathnameBase = ''/a/b'',
               pm_pattern = \<lparr>pattern_path = ''/a/b//'', pattern_caseSensitive = Some False,
                              pattern_end = Some True\<rparr>\<rparr>
   \<and> \<not> single_root ''//a''
   \<and> matchPath decode_ascii (PatternString ''//a'') ''//a'' = None"
proof -
  have h1: "\<not> endsWith ''/a:b//'' ''*''" "single_root ''/a:b//''"
    by (simp_all add: eval_defs single_root_def)
  have h2: "\<not> endsWith ''/a/b//'' ''*''"
    "single_root ''/a/b//'' \<and> list_all isl (tokens ''/a/b//'')"
    by (simp_all add: eval_defs single_root_def)
  have h3: "\<not> endsWith ''//a'' ''*''" "\<not> single_root ''//a''"
    by (simp_all add: eval_defs single_root_def)
  have d: "dropTrailingSlashes ''/a/b//'' = ''/a/b''"
    by (simp add: eval_defs)
  note t1 = matchPath_round_trip[OF h1(1), of decode_ascii, THEN conjunct1, THEN mp, OF h1(2)]
  note t2 = matchPath_round_trip[OF h2(1), of decode_ascii, THEN conjunct2, THEN conjunct2,
      THEN mp, OF h2(2)]
  note t3 = matchPath_round_trip[OF h3(1), of decode_ascii, THEN conjunct2, THEN conjunct1,
      THEN mp, OF h3(2)]
  show ?thesis
    using h1 t1 t2 t3 h3(2) d by simp
qed

section \<open>The ranking of the branches\<close>

lemma slice_butlast: "slice a 0 (- 1) = butlast a"
  by (simp add: slice_def slice_index_def butlast_conv_take nat_diff_distrib' max_def)

lemma every_butlast:
  assumes "length a = length b"
  shows "list_all (\<lambda>(n, i). i < length b \<and> n = b ! i) (zip (butlast a) [0..<length a])
         \<longleftrightarrow> butlast a = butlast b"
proof
  assume l: "list_all (\<lambda>(n, i). i < length b \<and> n = b ! i) (zip (butlast a) [0..<length a])"
  show "butlast a = butlast b"
  proof (rule nth_equalityI)
    show "length (butlast a) = length (butlast b)" using assms by simp
  next
    fix i assume i: "i < length (butlast a)"
    then have "(butlast a ! i, i) \<in> set (zip (butlast a) [0..<length a])"
      by (auto simp: set_zip intro!: exI[of _ i])
    with l have "butlast a ! i = b ! i"
      by (auto simp: list_all_iff)
    then show "butlast a ! i = butlast b ! i"
      using i assms by (simp add: nth_butlast)
  qed
next
  assume e: "butlast a = butlast b"
  show "list_all (\<lambda>(n, i). i < length b \<and> n = b ! i) (zip (butlast a) [0..<length a])"
    unfolding list_all_iff
  proof (clarify)
    fix n i assume "(n, i) \<in> set (zip (butlast a) [0..<length a])"
    then obtain j where j: "j < length (butlast a)" "n = butlast a ! j" "i = [0..<length a] ! j"
      "j < length a"
      by (auto simp: set_zip)
    then have "i = j" by simp
    moreover have "butlast a ! j = b ! j"
      using j e assms by (simp add: nth_butlast)
    ultimately show "i < length b \<and> n = b ! i"
      using j assms by simp
  qed
qed

lemma compareIndexes_siblings:
  "compareIndexes a b =
     (if length a = length b \<and> butlast a = butlast b \<and> a \<noteq> []
      then int (last a) - int (last b) else 0)"
  unfolding compareIndexes_def Let_def slice_butlast
  using every_butlast[of a b] by auto

lemma compareBranches_sibling_order:
  assumes "sibling_order y x"
  shows "compareBranches x y < 0 \<longleftrightarrow> branch_score y < branch_score x"
  using assms
  unfolding compareBranches_def compareIndexes_siblings sibling_order_def siblings_def indexes_def
  by auto


lemma insert_sorted_cong:
  "(\<And>y. y \<in> set acc \<Longrightarrow> (cmp x y < 0) = (cmp' x y < 0)) \<Longrightarrow>
     insert_sorted cmp x acc = insert_sorted cmp' x acc"
  by (induction acc) simp_all

lemma foldl_insert_sorted_cong:
  "sorted_wrt (\<lambda>y x. (cmp x y < 0) = (cmp' x y < 0)) xs \<Longrightarrow>
     foldl (\<lambda>acc x. insert_sorted cmp x acc) [] xs =
     foldl (\<lambda>acc x. insert_sorted cmp' x acc) [] xs"
proof (induction xs rule: rev_induct)
  case Nil
  show ?case by simp
next
  case (snoc x xs)
  from snoc(2) have s: "sorted_wrt (\<lambda>y x. (cmp x y < 0) = (cmp' x y < 0)) xs"
    and a: "\<And>y. y \<in> set xs \<Longrightarrow> (cmp x y < 0) = (cmp' x y < 0)"
    by (simp_all add: sorted_wrt_append)
  have "set (foldl (\<lambda>acc x. insert_sorted cmp' x acc) [] xs) = set xs"
    using set_sort_by[of cmp' xs] by (simp add: sort_by_def)
  then have "insert_sorted cmp x (foldl (\<lambda>acc x. insert_sorted cmp' x acc) [] xs) =
             insert_sorted cmp' x (foldl (\<lambda>acc x. insert_sorted cmp' x acc) [] xs)"
    using a by (intro insert_sorted_cong) simp
  then show ?case
    using snoc(1)[OF s] by simp
qed


lemma sorted_insert_by_score:
  "sorted_wrt (\<lambda>a b. branch_score a \<le> branch_score b) acc \<Longrightarrow>
   sorted_wrt (\<lambda>a b. branch_score a \<le> branch_score b) (insert_sorted by_score x acc)"
proof (induction acc)
  case Nil
  show ?case by simp
next
  case (Cons y ys)
  show ?case
  proof (cases "by_score x y < 0")
    case True
    then show ?thesis
      using Cons by (auto simp: set_insert_sorted by_score_def)
  next
    case False
    then show ?thesis
      using Cons by (auto simp: by_score_def)
  qed
qed

lemma filter_insert_by_score:
  "filter (same_score k) (insert_sorted by_score x acc) =
     (if same_score k x then x # filter (same_score k) acc else filter (same_score k) acc)"
  by (induction acc) (auto simp: by_score_def same_score_def[abs_def])

lemma sorted_foldl_by_score:
  "sorted_wrt (\<lambda>a b. branch_score a \<le> branch_score b)
     (foldl (\<lambda>acc x. insert_sorted by_score x acc) [] xs)"
  by (induction xs rule: rev_induct) (simp_all add: sorted_insert_by_score)

lemma filter_foldl_by_score:
  "filter (same_score k) (foldl (\<lambda>acc x. insert_sorted by_score x acc) [] xs) =
     rev (filter (same_score k) xs)"
  by (induction xs rule: rev_induct) (simp_all add: filter_insert_by_score)

lemma sort_by_score_sorted:
  "sorted_wrt (\<lambda>a b. branch_score b \<le> branch_score a) (sort_by by_score xs)"
  unfolding sort_by_def sorted_wrt_rev
  by (rule sorted_foldl_by_score)

lemma sort_by_score_stable:
  "filter (same_score k) (sort_by by_score xs) = filter (same_score k) xs"
  unfolding sort_by_def
  by (simp add: filter_foldl_by_score rev_filter[symmetric])

lemma rankRouteBranches_by_score:
  assumes "sorted_wrt sibling_order bs"
  shows "rankRouteBranches bs = sort_by by_score bs"
proof -
  have "sorted_wrt (\<lambda>y x. (compareBranches x y < 0) = (by_score x y < 0)) bs"
    using assms
    by (rule sorted_wrt_mono_rel[rotated])
       (simp add: compareBranches_sibling_order by_score_def)
  then show ?thesis
    unfolding rankRouteBranches_def sort_by_def
    by (simp add: foldl_insert_sorted_cong)
qed

lemma sorted_wrt_by_class:
  assumes "\<And>k. sorted_wrt P (filter (same_score k) xs)"
    and "\<And>a b. branch_score a \<noteq> branch_score b \<Longrightarrow> P a b"
  shows "sorted_wrt P xs"
  using assms(1)
proof (induction xs)
  case Nil
  show ?case by simp
next
  case (Cons x xs)
  have t: "sorted_wrt P (filter (same_score k) xs)" for k
    using Cons(2)[of k] by (cases "same_score k x") simp_all
  have "P x y" if "y \<in> set xs" for y
  proof (cases "branch_score x = branch_score y")
    case True
    then show ?thesis
      using Cons(2)[of "branch_score x"] that by (simp add: same_score_def)
  next
    case False
    then show ?thesis by (rule assms(2))
  qed
  then show ?case
    using Cons(1)[OF t] by simp
qed


lemma sibling_order_later:
  assumes "indexes a = P @ i # ra" "indexes b = P @ j # rb" "i < j"
  shows "sibling_order a b"
proof (cases ra)
  case Nil
  show ?thesis
    unfolding sibling_order_def siblings_def assms(1,2) using Nil assms(3)
    by (cases rb) auto
next
  case (Cons c cs)
  show ?thesis
    unfolding sibling_order_def siblings_def assms(1,2) using Cons assms(3)
    by (cases rb) (auto simp: butlast_append)
qed

lemma sibling_order_length:
  "length (indexes a) \<noteq> length (indexes b) \<Longrightarrow> sibling_order a b"
  by (simp add: sibling_order_def siblings_def)

lemma flatten_sibling_order:
  "flattenRoutes rs i bs pm pp = Inr out \<Longrightarrow>
     \<exists>new. out = bs @ new \<and> sorted_wrt sibling_order new
       \<and> (\<forall>b\<in>set new. \<exists>j rest. i \<le> j
              \<and> indexes b = map meta_childrenIndex pm @ j # rest)"
  "flattenRoute r i bs pm pp = Inr out \<Longrightarrow>
     \<exists>new. out = bs @ new \<and> sorted_wrt sibling_order new
       \<and> (\<forall>b\<in>set new. \<exists>rest. indexes b = map meta_childrenIndex pm @ i # rest)"
proof (induction rs i bs pm pp and r i bs pm pp arbitrary: out and out
    rule: flattenRoutes_flattenRoute.induct)
  case (1 index branches parentsMeta parentPath)
  then show ?case by simp
next
  case (2 r rs index branches parentsMeta parentPath)
  from 2(3) obtain bs1 where
    f1: "flattenRoute r index branches parentsMeta parentPath = Inr bs1" and
    f2: "flattenRoutes rs (Suc index) bs1 parentsMeta parentPath = Inr out"
    by (auto split: sum.splits)
  from 2(1)[OF f1] obtain n1 where
    n1: "bs1 = branches @ n1" "sorted_wrt sibling_order n1"
      "\<forall>b\<in>set n1. \<exists>rest. indexes b = map meta_childrenIndex parentsMeta @ index # rest"
    by blast
  from 2(2)[OF f1 f2] obtain n2 where
    n2: "out = bs1 @ n2" "sorted_wrt sibling_order n2"
      "\<forall>b\<in>set n2. \<exists>j rest. Suc index \<le> j
          \<and> indexes b = map meta_childrenIndex parentsMeta @ j # rest"
    by blast
  have cross: "sibling_order a b" if "a \<in> set n1" "b \<in> set n2" for a b
  proof -
    from n1(3) that(1) obtain ra where
      "indexes a = map meta_childrenIndex parentsMeta @ index # ra" by blast
    moreover from n2(3) that(2) obtain j rb where
      "Suc index \<le> j" "indexes b = map meta_childrenIndex parentsMeta @ j # rb" by blast
    ultimately show ?thesis
      by (intro sibling_order_later[of a _ index ra b j rb]) simp_all
  qed
  have "out = branches @ (n1 @ n2)"
    using n1(1) n2(1) by simp
  moreover have "sorted_wrt sibling_order (n1 @ n2)"
    using n1(2) n2(2) cross by (simp add: sorted_wrt_append)
  moreover have "\<forall>b\<in>set (n1 @ n2). \<exists>j rest. index \<le> j
          \<and> indexes b = map meta_childrenIndex parentsMeta @ j # rest"
  proof
    fix b assume "b \<in> set (n1 @ n2)"
    then consider "b \<in> set n1" | "b \<in> set n2" by auto
    then show "\<exists>j rest. index \<le> j
          \<and> indexes b = map meta_childrenIndex parentsMeta @ j # rest"
    proof cases
      case 1
      with n1(3) show ?thesis by (meson order_refl)
    next
      case 2
      with n2(3) show ?thesis by (meson Suc_leD)
    qed
  qed
  ultimately show ?case by blast
next
  case (3 r index branches parentsMeta parentPath)
  define rel where "rel = or_default (route_path r) []"
  define cs where "cs = or_default (route_children r) []"
  define p where "p = accumulated_path parentPath r"
  define rm where "rm = parentsMeta @
            [\<lparr>meta_relativePath =
                (if startsWith rel ''/'' then drop (length parentPath) rel else rel),
              meta_caseSensitive = (route_caseSensitive r = Some True),
              meta_childrenIndex = index, meta_route = r\<rparr>]"
  define self where "self = \<lparr>branch_path = p,
                                branch_score = computeScore p (route_index r),
                                branch_routesMeta = rm\<rparr>"
  have rm_idx: "map meta_childrenIndex rm = map meta_childrenIndex parentsMeta @ [index]"
    by (simp add: rm_def)
  have self_idx: "indexes self = map meta_childrenIndex parentsMeta @ [index]"
    by (simp add: self_def indexes_def rm_idx)
  have IH: "\<And>out. \<not> (startsWith rel ''/'' \<and> \<not> startsWith rel parentPath) \<Longrightarrow>
            \<not> (cs \<noteq> [] \<and> route_index r = Some True) \<Longrightarrow> cs \<noteq> [] \<Longrightarrow>
            flattenRoutes cs 0 branches rm p = Inr out \<Longrightarrow>
            \<exists>new. out = branches @ new \<and> sorted_wrt sibling_order new
              \<and> (\<forall>b\<in>set new. \<exists>j rest. 0 \<le> j
                    \<and> indexes b = map meta_childrenIndex rm @ j # rest)"
    using 3(1)[OF refl _ refl refl refl refl refl]
    unfolding rel_def cs_def p_def rm_def accumulated_path_def Let_def slice_from_nat
    by simp
  from 3(2) obtain mid where
    ok: "\<not> (startsWith rel ''/'' \<and> \<not> startsWith rel parentPath)"
        "\<not> (cs \<noteq> [] \<and> route_index r = Some True)" and
    mid: "(if cs \<noteq> [] then flattenRoutes cs 0 branches rm p else Inr branches) = Inr mid" and
    out: "out = (if route_path r = None \<and> \<not> truthy (route_index r) then mid
                 else mid @ [self])"
    unfolding flattenRoute_unfold Let_def
      rel_def[symmetric] cs_def[symmetric] p_def[symmetric] rm_def[symmetric] self_def[symmetric]
    by (auto split: sum.splits if_splits)
  have "\<exists>n. mid = branches @ n \<and> sorted_wrt sibling_order n
          \<and> (\<forall>b\<in>set n. \<exists>j rest.
                 indexes b = map meta_childrenIndex parentsMeta @ index # j # rest)"
  proof (cases "cs = []")
    case True
    then show ?thesis using mid by simp
  next
    case False
    with mid have "flattenRoutes cs 0 branches rm p = Inr mid" by simp
    from IH[OF ok False this] show ?thesis
      unfolding rm_idx by simp
  qed
  then obtain n where
    n: "mid = branches @ n" "sorted_wrt sibling_order n"
       "\<forall>b\<in>set n. \<exists>j rest.
           indexes b = map meta_childrenIndex parentsMeta @ index # j # rest"
    by blast
  have below: "sibling_order b self" if "b \<in> set n" for b
  proof -
    from n(3) that obtain j rest where
      "indexes b = map meta_childrenIndex parentsMeta @ index # j # rest" by blast
    then show ?thesis
      by (intro sibling_order_length) (simp add: self_idx)
  qed
  show ?case
  proof (cases "route_path r = None \<and> \<not> truthy (route_index r)")
    case True
    then have "out = branches @ n" using out n(1) by simp
    then show ?thesis using n(2,3) by blast
  next
    case False
    then have "out = branches @ (n @ [self])" using out n(1) by simp
    moreover have "sorted_wrt sibling_order (n @ [self])"
      using n(2) below by (simp add: sorted_wrt_append)
    moreover have "\<forall>b\<in>set (n @ [self]).
        \<exists>rest. indexes b = map meta_childrenIndex parentsMeta @ index # rest"
      using n(3) self_idx by auto
    ultimately show ?thesis by blast
  qed
qed

lemma flattenRoutes_sibling_order:
  "flattenRoutes routes 0 [] [] [] = Inr bs \<Longrightarrow> sorted_wrt sibling_order bs"
  using flatten_sibling_order(1)[of routes 0 "[]" "[]" "[]" bs] by simp


lemma compareBranches_sign:
  "(compareBranches a b < 0 \<longleftrightarrow>
      branch_score b < branch_score a
      \<or> (branch_score a = branch_score b \<and> siblings a b \<and> indexes a \<noteq> []
          \<and> last (indexes a) < last (indexes b)))"
  "(compareBranches a b > 0 \<longleftrightarrow>
      branch_score a < branch_score b
      \<or> (branch_score a = branch_score b \<and> siblings a b \<and> indexes a \<noteq> []
          \<and> last (indexes b) < last (indexes a)))"
  unfolding compareBranches_def compareIndexes_siblings siblings_def indexes_def
  by auto

text \<open>
  C3. \<open>rankRouteBranches\<close> sorts the list that \<open>flattenRoutes\<close> gives, the one list it is
  called on. The result is in descending order of score; of two siblings of equal score
  the one with the smaller last index comes first; and the branches of each score stand
  in the order they had. The comparison itself puts a branch before another when its
  score is higher, or when the scores are equal and the two are siblings of which it has
  the smaller last index, and after it in the mirrored cases; in every other case the
  comparison gives zero. For the routes \<open>/:a\<close> and \<open>/:b\<close>, of the same score,
  \<open>matchRoutes\<close> at \<open>/x\<close> gives the first.
\<close>

theorem rankRouteBranches_order:
  "(flattenRoutes routes 0 [] [] [] = Inr branches \<longrightarrow>
        sorted_wrt (\<lambda>a b. branch_score b \<le> branch_score a) (rankRouteBranches branches)
      \<and> sorted_wrt (\<lambda>a b. branch_score a = branch_score b \<and> siblings a b \<longrightarrow>
                             last (indexes a) < last (indexes b))
            (rankRouteBranches branches)
      \<and> (\<forall>k. filter (same_score k) (rankRouteBranches branches) =
               filter (same_score k) branches))
   \<and> (compareBranches a b < 0 \<longleftrightarrow>
        branch_score b < branch_score a
        \<or> (branch_score a = branch_score b \<and> siblings a b \<and> indexes a \<noteq> []
            \<and> last (indexes a) < last (indexes b)))
   \<and> (compareBranches a b > 0 \<longleftrightarrow>
        branch_score a < branch_score b
        \<or> (branch_score a = branch_score b \<and> siblings a b \<and> indexes a \<noteq> []
            \<and> last (indexes b) < last (indexes a)))
   \<and> matched_routes
         (matchRoutes dec parsePath h
            [RouteObject None None None (Some ''/:a'') first,
             RouteObject None None None (Some ''/:b'') second]
            (ToPath \<lparr>opt_pathname = Some ''/x'', opt_search = None, opt_hash = None\<rparr>) ''/'')
       = Some [RouteObject None None None (Some ''/:a'') first]"
proof (intro conjI impI allI)
  assume "flattenRoutes routes 0 [] [] [] = Inr branches"
  then have "sorted_wrt sibling_order branches"
    by (rule flattenRoutes_sibling_order)
  then show "sorted_wrt (\<lambda>a b. branch_score b \<le> branch_score a) (rankRouteBranches branches)"
    by (simp add: rankRouteBranches_by_score sort_by_score_sorted)
next
  fix k
  assume "flattenRoutes routes 0 [] [] [] = Inr branches"
  then have "sorted_wrt sibling_order branches"
    by (rule flattenRoutes_sibling_order)
  then show "filter (same_score k) (rankRouteBranches branches) = filter (same_score k) branches"
    by (simp add: rankRouteBranches_by_score sort_by_score_stable)
next
  assume "flattenRoutes routes 0 [] [] [] = Inr branches"
  then have s: "sorted_wrt sibling_order branches"
    by (rule flattenRoutes_sibling_order)
  let ?P = "\<lambda>a b. branch_score a = branch_score b \<and> siblings a b \<longrightarrow>
                   last (indexes a) < last (indexes b)"
  have "sorted_wrt ?P (filter (same_score k) (rankRouteBranches branches))" for k
  proof -
    have "sorted_wrt ?P branches"
      using s by (rule sorted_wrt_mono_rel[rotated]) (simp add: sibling_order_def)
    then have "sorted_wrt ?P (filter (same_score k) branches)"
      by (rule sorted_wrt_filter)
    then show ?thesis
      using s by (simp add: rankRouteBranches_by_score sort_by_score_stable)
  qed
  then show "sorted_wrt ?P (rankRouteBranches branches)"
    by (rule sorted_wrt_by_class) simp
next
  show "(compareBranches a b < 0) =
        (branch_score b < branch_score a
        \<or> (branch_score a = branch_score b \<and> siblings a b \<and> indexes a \<noteq> []
            \<and> last (indexes a) < last (indexes b)))"
    by (rule compareBranches_sign)
next
  show "(compareBranches a b > 0) =
        (branch_score a < branch_score b
        \<or> (branch_score a = branch_score b \<and> siblings a b \<and> indexes a \<noteq> []
            \<and> last (indexes b) < last (indexes a)))"
    by (rule compareBranches_sign)
next
  show "matched_routes
         (matchRoutes dec parsePath h
            [RouteObject None None None (Some ''/:a'') first,
             RouteObject None None None (Some ''/:b'') second]
            (ToPath \<lparr>opt_pathname = Some ''/x'', opt_search = None, opt_hash = None\<rparr>) ''/'')
       = Some [RouteObject None None None (Some ''/:a'') first]"
    by (simp add: eval_defs)
qed

theorem rankRouteBranches_order_witness:
  "flattenRoutes
     [RouteObject None None None (Some ''/:a'') (1::nat),
      RouteObject None None None (Some ''/x'') 2,
      RouteObject None None None (Some ''/:b'') 3] 0 [] [] [] =
   Inr
     [\<lparr>branch_path = ''/:a'', branch_score = 6, branch_routesMeta =
         [\<lparr>meta_relativePath = ''/:a'', meta_caseSensitive = False, meta_childrenIndex = 0,
            meta_route = RouteObject None None None (Some ''/:a'') (1::nat)\<rparr>]\<rparr>,
      \<lparr>branch_path = ''/x'', branch_score = 13, branch_routesMeta =
         [\<lparr>meta_relativePath = ''/x'', meta_caseSensitive = False, meta_childrenIndex = Suc 0,
            meta_route = RouteObject None None None (Some ''/x'') (2::nat)\<rparr>]\<rparr>,
      \<lparr>branch_path = ''/:b'', branch_score = 6, branch_routesMeta =
         [\<lparr>meta_relativePath = ''/:b'', meta_caseSensitive = False, meta_childrenIndex = 2,
            meta_route = RouteObject None None None (Some ''/:b'') (3::nat)\<rparr>]\<rparr>]
   \<and> sorted_wrt (\<lambda>a b. branch_score b \<le> branch_score a)
       (rankRouteBranches
     [\<lparr>branch_path = ''/:a'', branch_score = 6, branch_routesMeta =
         [\<lparr>meta_relativePath = ''/:a'', meta_caseSensitive = False, meta_childrenIndex = 0,
            meta_route = RouteObject None None None (Some ''/:a'') (1::nat)\<rparr>]\<rparr>,
      \<lparr>branch_path = ''/x'', branch_score = 13, branch_routesMeta =
         [\<lparr>meta_relativePath = ''/x'', meta_caseSensitive = False, meta_childrenIndex = Suc 0,
            meta_route = RouteObject None None None (Some ''/x'') (2::nat)\<rparr>]\<rparr>,
      \<lparr>branch_path = ''/:b'', branch_score = 6, branch_routesMeta =
         [\<lparr>meta_relativePath = ''/:b'', meta_caseSensitive = False, meta_childrenIndex = 2,
            meta_route = RouteObject None None None (Some ''/:b'') (3::nat)\<rparr>]\<rparr>])
   \<and> (\<forall>k. filter (same_score k)
       (rankRouteBranches
     [\<lparr>branch_path = ''/:a'', branch_score = 6, branch_routesMeta =
         [\<lparr>meta_relativePath = ''/:a'', meta_caseSensitive = False, meta_childrenIndex = 0,
            meta_route = RouteObject None None None (Some ''/:a'') (1::nat)\<rparr>]\<rparr>,
      \<lparr>branch_path = ''/x'', branch_score = 13, branch_routesMeta =
         [\<lparr>meta_relativePath = ''/x'', meta_caseSensitive = False, meta_childrenIndex = Suc 0,
            meta_route = RouteObject None None None (Some ''/x'') (2::nat)\<rparr>]\<rparr>,
      \<lparr>branch_path = ''/:b'', branch_score = 6, branch_routesMeta =
         [\<lparr>meta_relativePath = ''/:b'', meta_caseSensitive = False, meta_childrenIndex = 2,
            meta_route = RouteObject None None None (Some ''/:b'') (3::nat)\<rparr>]\<rparr>]) =
     filter (same_score k)
     [\<lparr>branch_path = ''/:a'', branch_score = 6, branch_routesMeta =
         [\<lparr>meta_relativePath = ''/:a'', meta_caseSensitive = False, meta_childrenIndex = 0,
            meta_route = RouteObject None None None (Some ''/:a'') (1::nat)\<rparr>]\<rparr>,
      \<lparr>branch_path = ''/x'', branch_score = 13, branch_routesMeta =
         [\<lparr>meta_relativePath = ''/x'', meta_caseSensitive = False, meta_childrenIndex = Suc 0,
            meta_route = RouteObject None None None (Some ''/x'') (2::nat)\<rparr>]\<rparr>,
      \<lparr>branch_path = ''/:b'', branch_score = 6, branch_routesMeta =
         [\<lparr>meta_relativePath = ''/:b'', meta_caseSensitive = False, meta_childrenIndex = 2,
            meta_route = RouteObject None None None (Some ''/:b'') (3::nat)\<rparr>]\<rparr>])
   \<and> map branch_path (rankRouteBranches
     [\<lparr>branch_path = ''/:a'', branch_score = 6, branch_routesMeta =
         [\<lparr>meta_relativePath = ''/:a'', meta_caseSensitive = False, meta_childrenIndex = 0,
            meta_route = RouteObject None None None (Some ''/:a'') (1::nat)\<rparr>]\<rparr>,
      \<lparr>branch_path = ''/x'', branch_score = 13, branch_routesMeta =
         [\<lparr>meta_relativePath = ''/x'', meta_caseSensitive = False, meta_childrenIndex = Suc 0,
            meta_route = RouteObject None None None (Some ''/x'') (2::nat)\<rparr>]\<rparr>,
      \<lparr>branch_path = ''/:b'', branch_score = 6, branch_routesMeta =
         [\<lparr>meta_relativePath = ''/:b'', meta_caseSensitive = False, meta_childrenIndex = 2,
            meta_route = RouteObject None None None (Some ''/:b'') (3::nat)\<rparr>]\<rparr>]) = [''/x'', ''/:a'', ''/:b'']"
proof -
  let ?routes = "[RouteObject None None None (Some ''/:a'') (1::nat),
      RouteObject None None None (Some ''/x'') 2,
      RouteObject None None None (Some ''/:b'') 3]"
  let ?bs = "[\<lparr>branch_path = ''/:a'', branch_score = 6, branch_routesMeta =
         [\<lparr>meta_relativePath = ''/:a'', meta_caseSensitive = False, meta_childrenIndex = 0,
            meta_route = RouteObject None None None (Some ''/:a'') (1::nat)\<rparr>]\<rparr>,
      \<lparr>branch_path = ''/x'', branch_score = 13, branch_routesMeta =
         [\<lparr>meta_relativePath = ''/x'', meta_caseSensitive = False, meta_childrenIndex = Suc 0,
            meta_route = RouteObject None None None (Some ''/x'') (2::nat)\<rparr>]\<rparr>,
      \<lparr>branch_path = ''/:b'', branch_score = 6, branch_routesMeta =
         [\<lparr>meta_relativePath = ''/:b'', meta_caseSensitive = False, meta_childrenIndex = 2,
            meta_route = RouteObject None None None (Some ''/:b'') (3::nat)\<rparr>]\<rparr>]"
  have flat: "flattenRoutes ?routes 0 [] [] [] = Inr ?bs"
    by (simp add: eval_defs)
  note c = rankRouteBranches_order[where routes = ?routes and branches = ?bs,
      THEN conjunct1, THEN mp, OF flat]
  have paths: "map branch_path (rankRouteBranches ?bs) = [''/x'', ''/:a'', ''/:b'']"
    by (simp add: eval_defs)
  show ?thesis
    using flat c[THEN conjunct1] c[THEN conjunct2, THEN conjunct2] paths
    by (intro conjI)
qed

end
